theory Spec2Isabelle
  imports Complex_Main
begin

section \<open>JavaScript values and objects\<close>

text \<open>
  The store is written in TypeScript; scope values, record fields and bound parameters
  are typed \<open>any\<close>. The values that reach the statement builders are modelled by
  \<open>jsval\<close>: undefined, null, booleans, numbers, strings and arrays. A finite number is
  a \<open>real\<close>; how a number prints (\<open>Number::toString\<close>) and what \<open>JSON.parse\<close>
  returns are built-ins of the language, taken as the two fields of \<open>js_builtins\<close>. The
  statement builders are verified for every such pair of built-ins; the last section of
  the definitions gives the pair the language specifies.
\<close>

datatype jsval = Undefined | Null | Bool bool | Num real | Str string | Arr "jsval list"

record js_builtins =
  Number_toString :: "real \<Rightarrow> string"
  JSON_parse :: "jsval \<Rightarrow> jsval option"

text \<open>\<open>Array.prototype.join\<close> on an array of strings.\<close>

fun join_with :: "string \<Rightarrow> string list \<Rightarrow> string" where
  "join_with sep [] = []"
| "join_with sep [x] = x"
| "join_with sep (x # y # ys) = x @ sep @ join_with sep (y # ys)"

text \<open>
  \<open>ToString\<close> of a value. An array prints as its elements joined by a comma, where an
  undefined or null element prints as the empty string.
\<close>

fun ToString :: "js_builtins \<Rightarrow> jsval \<Rightarrow> string" where
  "ToString rt Undefined = ''undefined''"
| "ToString rt Null = ''null''"
| "ToString rt (Bool b) = (if b then ''true'' else ''false'')"
| "ToString rt (Num r) = Number_toString rt r"
| "ToString rt (Str s) = s"
| "ToString rt (Arr xs) =
     join_with '',''
       (map (\<lambda>x. case x of Undefined \<Rightarrow> [] | Null \<Rightarrow> [] | _ \<Rightarrow> ToString rt x) xs)"

text \<open>\<open>xs.join(sep)\<close> on an array of values.\<close>

definition array_join :: "js_builtins \<Rightarrow> string \<Rightarrow> jsval list \<Rightarrow> string" where
  "array_join rt sep xs =
     join_with sep
       (map (\<lambda>x. case x of Undefined \<Rightarrow> [] | Null \<Rightarrow> [] | _ \<Rightarrow> ToString rt x) xs)"

text \<open>\<open>v ?? d\<close>: the default replaces undefined and null.\<close>

definition nullish :: "jsval \<Rightarrow> jsval \<Rightarrow> jsval" where
  "nullish v d = (case v of Undefined \<Rightarrow> d | Null \<Rightarrow> d | _ \<Rightarrow> v)"

text \<open>A parameter with a default value: the default replaces undefined only.\<close>

definition default_param :: "jsval \<Rightarrow> jsval \<Rightarrow> jsval" where
  "default_param v d = (case v of Undefined \<Rightarrow> d | _ \<Rightarrow> v)"

subsection \<open>Decimal numerals\<close>

definition digit_chars :: string where
  "digit_chars = ''0123456789''"

function show_nat :: "nat \<Rightarrow> string" where
  "show_nat n =
     (if n < 10 then [digit_chars ! n]
      else show_nat (n div 10) @ [digit_chars ! (n mod 10)])"
  by pat_completeness auto
termination
  by (relation "measure id") auto

declare show_nat.simps [simp del]

definition digit_value :: "char \<Rightarrow> nat option" where
  "digit_value c =
     map_of
       [(CHR ''0'', 0), (CHR ''1'', 1), (CHR ''2'', 2), (CHR ''3'', 3), (CHR ''4'', 4),
        (CHR ''5'', 5), (CHR ''6'', 6), (CHR ''7'', 7), (CHR ''8'', 8), (CHR ''9'', 9)] c"

fun decimal_value :: "nat \<Rightarrow> string \<Rightarrow> nat option" where
  "decimal_value acc [] = Some acc"
| "decimal_value acc (c # cs) =
     (case digit_value c of None \<Rightarrow> None | Some d \<Rightarrow> decimal_value (10 * acc + d) cs)"

subsection \<open>Objects and the order of their properties\<close>

text \<open>
  An object is the list of its own enumerable string-keyed properties in the order
  \<open>Object.keys\<close> and \<open>Object.entries\<close> give them. That order is fixed by the
  language: the keys that are array indices (canonical decimal numerals below
  \<open>2^32 - 1\<close>) come first, in ascending numeric order, then the other keys in the order
  in which they were created.
\<close>

type_synonym obj = "(string \<times> jsval) list"

definition array_index :: "string \<Rightarrow> nat option" where
  "array_index k =
     (case k of
        [] \<Rightarrow> None
      | c # cs \<Rightarrow>
          if c = CHR ''0'' \<and> cs \<noteq> [] then None
          else (case decimal_value 0 k of
                  None \<Rightarrow> None
                | Some n \<Rightarrow> if n < 4294967295 then Some n else None))"

fun obj_update :: "string \<Rightarrow> jsval \<Rightarrow> obj \<Rightarrow> obj" where
  "obj_update k v [] = []"
| "obj_update k v ((k', v') # ps) =
     (if k' = k then (k, v) # ps else (k', v') # obj_update k v ps)"

fun insert_index :: "nat \<Rightarrow> string \<Rightarrow> jsval \<Rightarrow> obj \<Rightarrow> obj" where
  "insert_index n k v [] = [(k, v)]"
| "insert_index n k v ((k', v') # ps) =
     (case array_index k' of
        None \<Rightarrow> (k, v) # (k', v') # ps
      | Some m \<Rightarrow>
          if m < n then (k', v') # insert_index n k v ps else (k, v) # (k', v') # ps)"

text \<open>
  Defining a property (what an object literal and a spread do for each key): an existing
  key keeps its place and takes the new value; a new key goes to its place in the order.
\<close>

definition obj_define :: "string \<Rightarrow> jsval \<Rightarrow> obj \<Rightarrow> obj" where
  "obj_define k v ob =
     (if k \<in> set (map fst ob) then obj_update k v ob
      else (case array_index k of
              None \<Rightarrow> ob @ [(k, v)]
            | Some n \<Rightarrow> insert_index n k v ob))"

text \<open>\<open>{...target, ...source}\<close>: every property of the source is defined on the target.\<close>

definition obj_spread :: "obj \<Rightarrow> obj \<Rightarrow> obj" where
  "obj_spread target source = fold (\<lambda>(k, v). obj_define k v) source target"

text \<open>\<open>ob[k]\<close> for an own property; undefined when there is none.\<close>

definition obj_get :: "obj \<Rightarrow> string \<Rightarrow> jsval" where
  "obj_get ob k = (case map_of ob k of None \<Rightarrow> Undefined | Some v \<Rightarrow> v)"

section \<open>Statements of sql-template-strings\<close>

text \<open>
  The statements are built with the package sql-template-strings, which the repository
  imports. A statement of that package holds two arrays, \<open>strings\<close> and \<open>values\<close>, with
  one string more than values: the text fragments around the bound values. Here it is
  the list of the fragments that are followed by a value, each with that value, and the
  last fragment. The tagged template \<open>SQL`a${v}b${w}c`\<close> is
  \<open>SQLStatement [(a, v), (b, w)] c\<close>.
\<close>

datatype sql_statement = SQLStatement "(string \<times> jsval) list" string

fun strings_of :: "sql_statement \<Rightarrow> string list" where
  "strings_of (SQLStatement ps l) = map fst ps @ [l]"

fun values_of :: "sql_statement \<Rightarrow> jsval list" where
  "values_of (SQLStatement ps l) = map snd ps"

text \<open>
  \<open>statement.text\<close>, the text sent to the executor: the fragments with the placeholders
  \<open>$1\<close>, \<open>$2\<close>, ... between them.
\<close>

fun text_from :: "nat \<Rightarrow> (string \<times> jsval) list \<Rightarrow> string \<Rightarrow> string" where
  "text_from i [] l = l"
| "text_from i ((s, v) # ps) l = s @ ''$'' @ show_nat i @ text_from (Suc i) ps l"

fun text_of :: "sql_statement \<Rightarrow> string" where
  "text_of (SQLStatement ps l) = text_from 1 ps l"

text \<open>
  \<open>statement.append(x)\<close>: a string is added to the last fragment; a statement adds its
  first fragment to the last fragment and brings its other fragments and its values.
\<close>

fun append_string :: "sql_statement \<Rightarrow> string \<Rightarrow> sql_statement" where
  "append_string (SQLStatement ps l) x = SQLStatement ps (l @ x)"

fun append_statement :: "sql_statement \<Rightarrow> sql_statement \<Rightarrow> sql_statement" where
  "append_statement (SQLStatement ps l) (SQLStatement [] l') = SQLStatement ps (l @ l')"
| "append_statement (SQLStatement ps l) (SQLStatement ((s, v) # qs) l') =
     SQLStatement (ps @ (l @ s, v) # qs) l'"

text \<open>\<open>SQL`s`\<close>, a template with no value, and \<open>SQL`${v}`\<close>, a lone bound value.\<close>

definition SQL :: "string \<Rightarrow> sql_statement" where
  "SQL s = SQLStatement [] s"

definition SQL_value :: "jsval \<Rightarrow> sql_statement" where
  "SQL_value v = SQLStatement [([], v)] []"

section \<open>The statement builders\<close>

definition dq :: char where
  "dq = CHR 0x22"

text \<open>\<open>createIdentifier\<close>: every double quote is doubled, and the result is quoted.\<close>

definition createIdentifier :: "string \<Rightarrow> string" where
  "createIdentifier str = dq # concat (map (\<lambda>c. if c = dq then [dq, dq] else [c]) str) @ [dq]"

text \<open>The loop of \<open>#createScopeFilter\<close>, with the statement and the flag \<open>first\<close>.\<close>

fun scope_loop :: "sql_statement \<Rightarrow> bool \<Rightarrow> obj \<Rightarrow> sql_statement" where
  "scope_loop statement first [] = statement"
| "scope_loop statement first ((key, v) # entries) =
     scope_loop
       (append_statement
          (append_string
             (if \<not> first then append_statement statement (SQL '' AND '') else statement)
             (createIdentifier key))
          (SQLStatement [('' = '', nullish v Null)] []))
       False entries"

definition createScopeFilter :: "obj \<Rightarrow> sql_statement" where
  "createScopeFilter scope =
     (if length scope = 0 then SQL [] else scope_loop (SQL []) True scope)"

text \<open>
  The second loop of \<open>#createInsertQuery\<close>: one bound value per entry, an array bound as
  the string of its elements in brackets, and a comma after every value but the last.
\<close>

definition bind_value :: "js_builtins \<Rightarrow> jsval \<Rightarrow> jsval" where
  "bind_value rt v =
     (case v of Arr xs \<Rightarrow> Str (''['' @ array_join rt '','' xs @ '']'') | _ \<Rightarrow> v)"

fun values_loop :: "js_builtins \<Rightarrow> sql_statement \<Rightarrow> jsval list \<Rightarrow> sql_statement" where
  "values_loop rt statement [] = statement"
| "values_loop rt statement (v # vs) =
     values_loop rt
       (let statement' = append_statement statement (SQL_value (bind_value rt v))
        in if vs \<noteq> [] then append_statement statement' (SQL '', '') else statement')
       vs"

definition createInsertQuery ::
  "js_builtins \<Rightarrow> string \<Rightarrow> obj \<Rightarrow> obj \<Rightarrow> (string \<Rightarrow> string) option \<Rightarrow> sql_statement" where
  "createInsertQuery rt table object scope mapFunction =
     (let fullObject = obj_spread (obj_spread [] scope) object;
          keys = map fst fullObject;
          columns =
            map (\<lambda>key. createIdentifier
                   (case mapFunction of Some f \<Rightarrow> f key | None \<Rightarrow> key)) keys;
          vals = map (\<lambda>key. obj_get fullObject key) keys;
          statement =
            append_statement
              (append_string (SQL ''INSERT INTO '') (createIdentifier table)) (SQL '' ('');
          statement = append_string statement (join_with '', '' columns);
          statement = append_statement statement (SQL '') VALUES ('');
          statement = values_loop rt statement vals
      in append_statement statement (SQL ('') RETURNING '' @ [dq] @ ''id'' @ [dq])))"

section \<open>The store\<close>

text \<open>
  The configuration the constructor receives (an absent key is \<open>None\<close>) and the private
  fields it leaves in the store. The pool is passed to each operation beside the store.
\<close>

record PostgresVectorStoreConfig =
  config_algorithm :: "string option"
  config_mapEmbeddingColumn :: "(string \<Rightarrow> string) option"
  config_documentScope :: "obj option"
  config_embeddingScope :: "obj option"
  config_documentTable :: "string option"
  config_embeddingTable :: "string option"

record store =
  mapEmbeddingColumn :: "string \<Rightarrow> string"
  documentScope :: obj
  embeddingScope :: obj
  algorithm :: string
  documentTable :: string
  embeddingTable :: string

definition new_store :: "PostgresVectorStoreConfig \<Rightarrow> store" where
  "new_store config =
     \<lparr> mapEmbeddingColumn =
         (case config_mapEmbeddingColumn config of
            None \<Rightarrow> (\<lambda>columnName. columnName) | Some f \<Rightarrow> f),
       documentScope = (case config_documentScope config of None \<Rightarrow> [] | Some s \<Rightarrow> s),
       embeddingScope = (case config_embeddingScope config of None \<Rightarrow> [] | Some s \<Rightarrow> s),
       algorithm = (case config_algorithm config of None \<Rightarrow> ''cosine'' | Some a \<Rightarrow> a),
       documentTable =
         (case config_documentTable config of None \<Rightarrow> ''documents'' | Some t \<Rightarrow> t),
       embeddingTable =
         (case config_embeddingTable config of None \<Rightarrow> ''embeddings'' | Some t \<Rightarrow> t) \<rparr>"

text \<open>
  What an operation can raise: a failed \<open>assert\<close> with its message, an error of the
  executor, which the store lets through, and the error of \<open>JSON.parse\<close>.
\<close>

datatype error = AssertionError string | ExecutorError string | JSONSyntaxError

text \<open>
  The pool executes one statement on the state of the database and answers with the rows
  or with an error.
\<close>

type_synonym 'db pool = "sql_statement \<Rightarrow> 'db \<Rightarrow> (error + obj list) \<times> 'db"

subsection \<open>Lookup and deletion of a document\<close>

definition lookup_statement :: "store \<Rightarrow> jsval \<Rightarrow> sql_statement" where
  "lookup_statement st reference =
     (let stmt =
            append_statement
              (append_string (SQL ''SELECT * FROM '') (createIdentifier (documentTable st)))
              (SQLStatement [('' WHERE '' @ [dq] @ ''id'' @ [dq] @ '' = '', reference)] []);
          scopeFilter = createScopeFilter (documentScope st)
      in if length (text_of scopeFilter) > 0
         then append_statement (append_statement stmt (SQL '' AND '')) scopeFilter
         else stmt)"

text \<open>\<open>result.rows[0]\<close>: the first row, or undefined (\<open>None\<close>) when there is no row.\<close>

definition getDocumentByReference ::
  "store \<Rightarrow> 'db pool \<Rightarrow> jsval \<Rightarrow> 'db \<Rightarrow> (error + obj option) \<times> 'db" where
  "getDocumentByReference st pool reference db =
     (case pool (lookup_statement st reference) db of
        (Inl e, db') \<Rightarrow> (Inl e, db')
      | (Inr rows, db') \<Rightarrow>
          (Inr (case rows of [] \<Rightarrow> None | row # _ \<Rightarrow> Some row), db'))"

definition delete_statement :: "store \<Rightarrow> jsval \<Rightarrow> sql_statement" where
  "delete_statement st document =
     (let stmt =
            append_statement
              (append_string (SQL ''DELETE FROM '') (createIdentifier (documentTable st)))
              (SQLStatement [('' WHERE '' @ [dq] @ ''id'' @ [dq] @ '' = '', document)] []);
          scopeFilter = createScopeFilter (documentScope st)
      in if length (text_of scopeFilter) > 0
         then append_statement (append_statement stmt (SQL '' AND '')) scopeFilter
         else stmt)"

definition delete_document ::
  "store \<Rightarrow> 'db pool \<Rightarrow> jsval \<Rightarrow> 'db \<Rightarrow> (error + unit) \<times> 'db" where
  "delete_document st pool document db =
     (case pool (delete_statement st document) db of
        (Inl e, db') \<Rightarrow> (Inl e, db')
      | (Inr rows, db') \<Rightarrow> (Inr (), db'))"

subsection \<open>Listing the documents\<close>

definition documents_statement :: "store \<Rightarrow> sql_statement" where
  "documents_statement st =
     (let scopeFilter = createScopeFilter (documentScope st);
          stmt = append_string (SQL ''SELECT * FROM '') (createIdentifier (documentTable st))
      in if length (text_of scopeFilter) > 0
         then append_statement (append_statement stmt (SQL '' WHERE '')) scopeFilter
         else stmt)"

definition getDocuments :: "store \<Rightarrow> 'db pool \<Rightarrow> 'db \<Rightarrow> (error + obj list) \<times> 'db" where
  "getDocuments st pool db = pool (documents_statement st) db"

subsection \<open>Creating a document and appending embeddings\<close>

definition createDocument ::
  "js_builtins \<Rightarrow> store \<Rightarrow> 'db pool \<Rightarrow> obj \<Rightarrow> 'db \<Rightarrow> (error + jsval) \<times> 'db" where
  "createDocument rt st pool document db =
     (case pool (createInsertQuery rt (documentTable st) document (documentScope st) None) db of
        (Inl e, db') \<Rightarrow> (Inl e, db')
      | (Inr rows, db') \<Rightarrow>
          (case rows of
             [row] \<Rightarrow> (Inr (obj_get row ''id''), db')
           | _ \<Rightarrow> (Inl (AssertionError ''Expected one row to be returned''), db')))"

text \<open>The object \<open>{ ...embedding, document }\<close> and the insert of one embedding.\<close>

definition embedding_insert :: "js_builtins \<Rightarrow> store \<Rightarrow> jsval \<Rightarrow> obj \<Rightarrow> sql_statement" where
  "embedding_insert rt st document embedding =
     createInsertQuery rt (embeddingTable st)
       (obj_define ''document'' document (obj_spread [] embedding))
       (embeddingScope st) (Some (mapEmbeddingColumn st))"

text \<open>
  \<open>append\<close>: the loop over the embeddings awaits each insert before the next; an error
  of the executor leaves the loop, and the result of an insert is not read.
\<close>

fun append_embeddings ::
  "js_builtins \<Rightarrow> store \<Rightarrow> 'db pool \<Rightarrow> jsval \<Rightarrow> obj list \<Rightarrow> 'db \<Rightarrow> (error + unit) \<times> 'db" where
  "append_embeddings rt st pool document [] db = (Inr (), db)"
| "append_embeddings rt st pool document (embedding # embeddings) db =
     (case pool (embedding_insert rt st document embedding) db of
        (Inl e, db') \<Rightarrow> (Inl e, db')
      | (Inr rows, db') \<Rightarrow> append_embeddings rt st pool document embeddings db')"

subsection \<open>The nearest-neighbour query\<close>

text \<open>
  \<open>query\<close> reads the operator from an object literal with the four algorithms as keys.
  Reading a key of an object also finds what the object inherits from
  \<open>Object.prototype\<close>, so the outcome of the read is the operator of an own key, an
  inherited member, or undefined.
\<close>

datatype property = OwnValue string | InheritedValue string | NoProperty

definition operators :: "(string \<times> string) list" where
  "operators =
     [(''l2'', ''<->''), (''l1'', ''<+>''), (''negative_inner_product'', ''<#>''),
      (''cosine'', ''<=>'')]"

definition object_prototype_keys :: "string list" where
  "object_prototype_keys =
     [''constructor'', ''__defineGetter__'', ''__defineSetter__'', ''hasOwnProperty'',
      ''__lookupGetter__'', ''__lookupSetter__'', ''isPrototypeOf'',
      ''propertyIsEnumerable'', ''toString'', ''valueOf'', ''__proto__'',
      ''toLocaleString'']"

definition operator_lookup :: "string \<Rightarrow> property" where
  "operator_lookup a =
     (case map_of operators a of
        Some operator \<Rightarrow> OwnValue operator
      | None \<Rightarrow> if a \<in> set object_prototype_keys then InheritedValue a else NoProperty)"

text \<open>What \<open>assert\<close> tests: a non-empty string, a function and an object are truthy.\<close>

fun truthy :: "property \<Rightarrow> bool" where
  "truthy (OwnValue s) = (s \<noteq> [])"
| "truthy (InheritedValue k) = True"
| "truthy NoProperty = False"

text \<open>
  The text the template literal \<open>` ${operator} `\<close> puts between the spaces. An inherited
  member is a built-in function, printed as Node.js prints one, or the prototype itself.
\<close>

fun property_text :: "property \<Rightarrow> string" where
  "property_text (OwnValue s) = s"
| "property_text (InheritedValue k) =
     (if k = ''__proto__'' then ''[object Object]''
      else ''function '' @ (if k = ''constructor'' then ''Object'' else k)
           @ ''() { [native code] }'')"
| "property_text NoProperty = ''undefined''"

text \<open>\<open>filters.forEach\<close>, with the index of the filter.\<close>

fun filters_loop :: "sql_statement \<Rightarrow> nat \<Rightarrow> sql_statement list \<Rightarrow> sql_statement" where
  "filters_loop stmt i [] = stmt"
| "filters_loop stmt i (flt # filters) =
     filters_loop
       (append_statement (if i > 0 then append_statement stmt (SQL '' AND '') else stmt) flt)
       (Suc i) filters"

definition query_statement ::
  "js_builtins \<Rightarrow> store \<Rightarrow> string \<Rightarrow> real list \<Rightarrow> jsval list option \<Rightarrow> jsval \<Rightarrow> jsval
     \<Rightarrow> sql_statement" where
  "query_statement rt st operator vector documents limit offset =
     (let vectorCol = mapEmbeddingColumn st ''vector'';
          textCol = mapEmbeddingColumn st ''text'';
          docCol = mapEmbeddingColumn st ''document'';
          stmt = SQL ''SELECT '';
          stmt = append_statement (append_string stmt (createIdentifier docCol))
                   (SQL '' AS document, '');
          stmt = append_statement (append_string stmt (createIdentifier textCol))
                   (SQL '' AS text, '');
          stmt = append_statement (append_string stmt (createIdentifier vectorCol))
                   (SQL '' AS vector, '');
          stmt = append_statement stmt
                   (append_statement
                      (append_statement
                         (append_string
                            (append_string (SQL []) (createIdentifier vectorCol))
                            ('' '' @ operator @ '' ''))
                         (SQL_value (Str (''['' @ array_join rt '','' (map Num vector) @ '']''))))
                      (SQL '' AS distance ''));
          stmt = append_string (append_statement stmt (SQL ''FROM ''))
                   (createIdentifier (embeddingTable st));
          scopeFilter = createScopeFilter (embeddingScope st);
          filters = (if length (text_of scopeFilter) > 0 then [scopeFilter] else []);
          filters =
            (case documents of
               None \<Rightarrow> filters
             | Some ds \<Rightarrow>
                 filters @
                 [append_statement (append_string (SQL []) (createIdentifier docCol))
                    (SQLStatement [('' = ANY('', Arr ds)] '')'')]);
          stmt = (if length filters > 0
                  then filters_loop (append_statement stmt (SQL '' WHERE '')) 0 filters
                  else stmt);
          stmt = append_statement stmt (SQL '' ORDER BY distance ASC'')
      in append_statement stmt (SQLStatement [('' LIMIT '', limit), ('' OFFSET '', offset)] []))"

text \<open>One result of \<open>query\<close>, and the map over the rows, which stops at the first error.\<close>

record embedding_result =
  result_text :: jsval
  result_vector :: jsval
  result_distance :: jsval
  result_document :: jsval

fun map_rows :: "js_builtins \<Rightarrow> obj list \<Rightarrow> error + embedding_result list" where
  "map_rows rt [] = Inr []"
| "map_rows rt (row # rows) =
     (case JSON_parse rt (obj_get row ''vector'') of
        None \<Rightarrow> Inl JSONSyntaxError
      | Some v \<Rightarrow>
          (case map_rows rt rows of
             Inl e \<Rightarrow> Inl e
           | Inr results \<Rightarrow>
               Inr (\<lparr> result_text = obj_get row ''text'', result_vector = v,
                      result_distance = obj_get row ''distance'',
                      result_document = obj_get row ''document'' \<rparr> # results)))"

definition query ::
  "js_builtins \<Rightarrow> store \<Rightarrow> 'db pool \<Rightarrow> real list \<Rightarrow> jsval list option \<Rightarrow> jsval \<Rightarrow> jsval
     \<Rightarrow> 'db \<Rightarrow> (error + embedding_result list) \<times> 'db" where
  "query rt st pool vector documents limit offset db =
     (let operator = operator_lookup (algorithm st)
      in if \<not> truthy operator
         then (Inl (AssertionError (''Unsupported distance algorithm: '' @ algorithm st)), db)
         else (case pool (query_statement rt st (property_text operator) vector documents
                            (default_param limit (Num 10)) (default_param offset (Num 0))) db of
                 (Inl e, db') \<Rightarrow> (Inl e, db')
               | (Inr rows, db') \<Rightarrow> (map_rows rt rows, db')))"

section \<open>Templates: quoted names and bound values\<close>

text \<open>
  The shape a statement is to have: literal SQL text, a table or column name, which is
  to appear quoted by \<open>createIdentifier\<close>, and a data value, which is to be bound and to
  leave only its placeholder in the text. \<open>render\<close> builds the statement of a template
  with the operations of the package; \<open>piece_text\<close> and \<open>params\<close> are the text and the
  bound values a template stands for.
\<close>

datatype piece = Lit string | Ident string | Param jsval

fun add_piece :: "sql_statement \<Rightarrow> piece \<Rightarrow> sql_statement" where
  "add_piece st (Lit s) = append_string st s"
| "add_piece st (Ident n) = append_string st (createIdentifier n)"
| "add_piece st (Param v) = append_statement st (SQL_value v)"

definition render_onto :: "sql_statement \<Rightarrow> piece list \<Rightarrow> sql_statement" where
  "render_onto st ps = foldl add_piece st ps"

definition render :: "piece list \<Rightarrow> sql_statement" where
  "render ps = render_onto (SQL []) ps"

fun piece_text :: "nat \<Rightarrow> piece list \<Rightarrow> string" where
  "piece_text i [] = []"
| "piece_text i (Lit s # ps) = s @ piece_text i ps"
| "piece_text i (Ident n # ps) = createIdentifier n @ piece_text i ps"
| "piece_text i (Param v # ps) = ''$'' @ show_nat i @ piece_text (Suc i) ps"

fun params :: "piece list \<Rightarrow> jsval list" where
  "params [] = []"
| "params (Param v # ps) = v # params ps"
| "params (p # ps) = params ps"

text \<open>Groups of pieces with a separator between each two.\<close>

fun separated :: "piece list \<Rightarrow> piece list list \<Rightarrow> piece list" where
  "separated sep [] = []"
| "separated sep [g] = g"
| "separated sep (g # h # gs) = g @ sep @ separated sep (h # gs)"

text \<open>The scope filter: one equality per entry, joined by AND.\<close>

definition scope_template :: "obj \<Rightarrow> piece list" where
  "scope_template scope =
     separated [Lit '' AND '']
       (map (\<lambda>(k, v). [Ident k, Lit '' = '', Param (nullish v Null)]) scope)"

text \<open>The clause of the key \<open>k\<close> whose value is the \<open>i\<close>-th bound value.\<close>

definition equality_clause :: "nat \<times> string \<Rightarrow> string" where
  "equality_clause p = createIdentifier (snd p) @ '' = $'' @ show_nat (fst p)"

text \<open>The placeholder of the \<open>i\<close>-th bound value.\<close>

definition placeholder :: "nat \<Rightarrow> string" where
  "placeholder i = ''$'' @ show_nat i"

text \<open>
  The insert of the entries \<open>merged\<close>: the quoted columns, one bound value per entry,
  and the clause that returns the key.
\<close>

definition column_name :: "(string \<Rightarrow> string) option \<Rightarrow> string \<Rightarrow> string" where
  "column_name mapFunction key = (case mapFunction of Some f \<Rightarrow> f key | None \<Rightarrow> key)"

definition insert_template ::
  "js_builtins \<Rightarrow> string \<Rightarrow> (string \<Rightarrow> string) option \<Rightarrow> obj \<Rightarrow> piece list" where
  "insert_template rt table mapFunction merged =
     [Lit ''INSERT INTO '', Ident table, Lit '' (''] @
     separated [Lit '', ''] (map (\<lambda>(k, v). [Ident (column_name mapFunction k)]) merged) @
     [Lit '') VALUES (''] @
     separated [Lit '', ''] (map (\<lambda>(k, v). [Param (bind_value rt v)]) merged) @
     [Lit ('') RETURNING '' @ [dq] @ ''id'' @ [dq])]"

text \<open>
  The merge in the words of the specification: the entries of the scope first, each with
  the value of the record where the record has the key too, then the fields of the
  record that the scope does not have.
\<close>

definition merge_entries :: "obj \<Rightarrow> obj \<Rightarrow> obj" where
  "merge_entries scope object =
     map (\<lambda>(k, v). (k, case map_of object k of Some w \<Rightarrow> w | None \<Rightarrow> v)) scope @
     filter (\<lambda>(k, w). k \<notin> set (map fst scope)) object"

text \<open>
  The object \<open>{...scope, ...object}\<close> whose keys the insert goes through, the entries
  whose key is not an array index, and the number an array index stands for.
\<close>

definition merged_object :: "obj \<Rightarrow> obj \<Rightarrow> obj" where
  "merged_object scope object = obj_spread (obj_spread [] scope) object"

definition plain_key :: "string \<times> jsval \<Rightarrow> bool" where
  "plain_key p = (array_index (fst p) = None)"

definition index_of_key :: "string \<times> jsval \<Rightarrow> nat" where
  "index_of_key p = (case array_index (fst p) of None \<Rightarrow> 0 | Some n \<Rightarrow> n)"

text \<open>The statements of the lookup, the deletion, the listing and the query.\<close>

definition scope_condition :: "string \<Rightarrow> obj \<Rightarrow> piece list" where
  "scope_condition keyword scope =
     (if scope = [] then [] else Lit keyword # scope_template scope)"

definition lookup_template :: "store \<Rightarrow> jsval \<Rightarrow> piece list" where
  "lookup_template st reference =
     [Lit ''SELECT * FROM '', Ident (documentTable st),
      Lit ('' WHERE '' @ [dq] @ ''id'' @ [dq] @ '' = ''), Param reference] @
     scope_condition '' AND '' (documentScope st)"

definition delete_template :: "store \<Rightarrow> jsval \<Rightarrow> piece list" where
  "delete_template st document =
     [Lit ''DELETE FROM '', Ident (documentTable st),
      Lit ('' WHERE '' @ [dq] @ ''id'' @ [dq] @ '' = ''), Param document] @
     scope_condition '' AND '' (documentScope st)"

definition documents_template :: "store \<Rightarrow> piece list" where
  "documents_template st =
     [Lit ''SELECT * FROM '', Ident (documentTable st)] @
     scope_condition '' WHERE '' (documentScope st)"

definition filter_templates :: "store \<Rightarrow> jsval list option \<Rightarrow> piece list list" where
  "filter_templates st documents =
     (if embeddingScope st = [] then [] else [scope_template (embeddingScope st)]) @
     (case documents of
        None \<Rightarrow> []
      | Some ds \<Rightarrow>
          [[Ident (mapEmbeddingColumn st ''document''), Lit '' = ANY('', Param (Arr ds),
            Lit '')'']])"

definition query_template ::
  "js_builtins \<Rightarrow> store \<Rightarrow> string \<Rightarrow> real list \<Rightarrow> jsval list option \<Rightarrow> jsval \<Rightarrow> jsval
     \<Rightarrow> piece list" where
  "query_template rt st operator vector documents limit offset =
     [Lit ''SELECT '', Ident (mapEmbeddingColumn st ''document''), Lit '' AS document, '',
      Ident (mapEmbeddingColumn st ''text''), Lit '' AS text, '',
      Ident (mapEmbeddingColumn st ''vector''), Lit '' AS vector, '',
      Ident (mapEmbeddingColumn st ''vector''), Lit ('' '' @ operator @ '' ''),
      Param (Str (''['' @ array_join rt '','' (map Num vector) @ '']'')),
      Lit '' AS distance FROM '', Ident (embeddingTable st)] @
     (if filter_templates st documents = [] then []
      else Lit '' WHERE '' # separated [Lit '' AND ''] (filter_templates st documents)) @
     [Lit '' ORDER BY distance ASC LIMIT '', Param limit, Lit '' OFFSET '', Param offset]"

text \<open>An object with the same keys and other values: \<open>f k v\<close> in place of \<open>v\<close>.\<close>

definition revalue :: "(string \<Rightarrow> jsval \<Rightarrow> jsval) \<Rightarrow> obj \<Rightarrow> obj" where
  "revalue f ob = map (\<lambda>(k, v). (k, f k v)) ob"

section \<open>Built-ins for concrete inputs\<close>

text \<open>
  Built-ins to evaluate the operations at concrete inputs: a natural number prints in
  decimal, and \<open>JSON.parse\<close> knows the three vectors of the example program and null.
\<close>

definition example_builtins :: js_builtins where
  "example_builtins =
     \<lparr> Number_toString = (\<lambda>r. show_nat (nat \<lfloor>r\<rfloor>)),
       JSON_parse =
         map_of
           [(Str ''[1,2,3]'', Arr [Num 1, Num 2, Num 3]),
            (Str ''[4,5,6]'', Arr [Num 4, Num 5, Num 6]),
            (Str ''[7,8,9]'', Arr [Num 7, Num 8, Num 9]),
            (Null, Null)] \<rparr>"

text \<open>
  The store of the example program: the scope \<open>{scope: "test"}\<close> for both tables and
  the defaults for the rest.
\<close>

definition example_store :: store where
  "example_store =
     new_store
       \<lparr> config_algorithm = None, config_mapEmbeddingColumn = None,
         config_documentScope = Some [(''scope'', Str ''test'')],
         config_embeddingScope = Some [(''scope'', Str ''test'')],
         config_documentTable = None, config_embeddingTable = None \<rparr>"

text \<open>
  Two pools for concrete runs. The first keeps the bound values of every statement it
  accepts as a row of its state and answers with one row holding the next key; it
  rejects a statement that binds null. The second accepts every statement, keeps
  nothing and answers with no row.
\<close>

definition example_pool :: "jsval list list pool" where
  "example_pool stmt db =
     (if Null \<in> set (values_of stmt)
      then (Inl (ExecutorError ''null value violates not-null constraint''), db)
      else (Inr [[(''id'', Num (real (Suc (length db))))]], db @ [values_of stmt]))"

definition no_rows_pool :: "unit pool" where
  "no_rows_pool stmt db = (Inr [], db)"

text \<open>A pool that answers every statement with the same rows.\<close>

definition rows_pool :: "obj list \<Rightarrow> unit pool" where
  "rows_pool rows stmt db = (Inr rows, db)"

section \<open>Observing the pool\<close>

text \<open>
  A pool that records, beside the state of the pool it wraps, every statement it is
  given, in order.
\<close>

definition recording :: "'db pool \<Rightarrow> ('db \<times> sql_statement list) pool" where
  "recording pool stmt s =
     (case pool stmt (fst s) of (r, db') \<Rightarrow> (r, (db', snd s @ [stmt])))"

text \<open>
  The state a pool is left in by the statements \<open>qs\<close>, executed one after the other
  from the state \<open>db\<close>.
\<close>

definition state_after :: "'db pool \<Rightarrow> sql_statement list \<Rightarrow> 'db \<Rightarrow> 'db" where
  "state_after pool qs db = fold (\<lambda>q d. snd (pool q d)) qs db"

text \<open>A pool whose rows are replaced by \<open>f\<close> of them before the store sees them.\<close>

definition with_rows :: "(obj list \<Rightarrow> obj list) \<Rightarrow> 'db pool \<Rightarrow> 'db pool" where
  "with_rows f pool stmt db =
     (case pool stmt db of
        (Inl e, db') \<Rightarrow> (Inl e, db')
      | (Inr rows, db') \<Rightarrow> (Inr (f rows), db'))"

section \<open>What a consumer receives\<close>

text \<open>
  The results of \<open>query\<close> and of \<open>getDocuments\<close> reach the caller as an asynchronous
  sequence made from a promise of an array. A consumer of the sequence receives the
  elements of the array in order when the promise is fulfilled, and no element when it is
  rejected.
\<close>

fun delivered :: "error + 'a list \<Rightarrow> 'a list" where
  "delivered (Inl e) = []"
| "delivered (Inr xs) = xs"

text \<open>The result \<open>query\<close> makes of one row, given the decoded vector.\<close>

definition row_result :: "obj \<Rightarrow> jsval \<Rightarrow> embedding_result" where
  "row_result row v =
     \<lparr> result_text = obj_get row ''text'', result_vector = v,
       result_distance = obj_get row ''distance'', result_document = obj_get row ''document'' \<rparr>"

section \<open>The executor of the nearest-neighbour statement\<close>

text \<open>
  Modelled from the spec: the database engine that executes the nearest-neighbour
  statement, which is not part of the repository. Sections 4.4 and 6 of the
  specification have it order the rows ascending by the computed distance and paginate
  them with LIMIT and OFFSET. The rows that pass the filters, each with its distance,
  are given as \<open>hits\<close> in no particular order. The engine orders and paginates only a
  statement that asks for it: one whose text ends with
  \<open>ORDER BY distance ASC LIMIT $i OFFSET $j\<close>; the bound values of the two
  placeholders must be natural numbers.
\<close>

record embedding_hit =
  hit_document :: jsval
  hit_text :: jsval
  hit_vector :: jsval
  hit_distance :: real

definition hit_row :: "embedding_hit \<Rightarrow> obj" where
  "hit_row h =
     [(''document'', hit_document h), (''text'', hit_text h), (''vector'', hit_vector h),
      (''distance'', Num (hit_distance h))]"

definition ends_with :: "string \<Rightarrow> string \<Rightarrow> bool" where
  "ends_with suffix s =
     (length suffix \<le> length s \<and> drop (length s - length suffix) s = suffix)"

definition page_request :: "sql_statement \<Rightarrow> (jsval \<times> jsval) option" where
  "page_request stmt =
     (case stmt of
        SQLStatement ps l \<Rightarrow>
          (case rev ps of
             (s2, v2) # (s1, v1) # _ \<Rightarrow>
               if l = [] \<and> s2 = '' OFFSET '' \<and> ends_with '' ORDER BY distance ASC LIMIT '' s1
               then Some (v1, v2) else None
           | _ \<Rightarrow> None))"

definition row_count :: "jsval \<Rightarrow> nat option" where
  "row_count v =
     (case v of
        Num r \<Rightarrow> if 0 \<le> r \<and> r = of_int \<lfloor>r\<rfloor> then Some (nat \<lfloor>r\<rfloor>) else None
      | _ \<Rightarrow> None)"

definition ordering_engine :: "embedding_hit list \<Rightarrow> 'db pool" where
  "ordering_engine hits stmt db =
     (case page_request stmt of
        None \<Rightarrow> (Inr (map hit_row hits), db)
      | Some (v1, v2) \<Rightarrow>
          (case (row_count v1, row_count v2) of
             (Some n, Some m) \<Rightarrow>
               (Inr (map hit_row (take n (drop m (sort_key hit_distance hits)))), db)
           | _ \<Rightarrow> (Inl (ExecutorError ''LIMIT and OFFSET must be natural numbers''), db)))"

section \<open>The built-ins that print and read a vector\<close>

text \<open>
  Modelled from the spec: the two built-ins of the language through which a vector is
  serialised and decoded (sections 4.3 and 4.4 of the specification), which are not part
  of the repository. \<open>Number::toString\<close> and \<open>JSON.parse\<close> are given as the language
  specification, ECMA-262, defines them. A number of the language is identified with the
  real that its shortest decimal numeral denotes, the numeral \<open>Number::toString\<close>
  prints and \<open>JSON.parse\<close> reads back as the same number; the rounding of other
  numerals to the nearest double is not modelled, and there is no negative zero, which
  prints as \<open>0\<close>.
\<close>

subsection \<open>Number::toString\<close>

text \<open>
  The decimal of a positive number: the digits \<open>s\<close> and the exponent \<open>e\<close> with
  \<open>s * 10 ^ e\<close> the number and \<open>s\<close> not a multiple of ten, found by scaling the number
  to an integer and then removing the zeros at its end. The shortest numeral of a double
  has at most 17 digits and an exponent between -324 and 308, so 400 steps of scaling
  reach every number; a real they do not reach is no number of the language.
\<close>

function strip_zeros :: "nat \<Rightarrow> int \<Rightarrow> nat \<times> int" where
  "strip_zeros s e =
     (if s = 0 \<or> s mod 10 \<noteq> 0 then (s, e) else strip_zeros (s div 10) (e + 1))"
  by pat_completeness auto
termination
  by (relation "measure fst") auto

declare strip_zeros.simps [simp del]

fun scale_to_int :: "nat \<Rightarrow> real \<Rightarrow> int \<Rightarrow> (nat \<times> int) option" where
  "scale_to_int 0 r e = (if r = of_int \<lfloor>r\<rfloor> then Some (nat \<lfloor>r\<rfloor>, e) else None)"
| "scale_to_int (Suc fuel) r e =
     (if r = of_int \<lfloor>r\<rfloor> then Some (nat \<lfloor>r\<rfloor>, e) else scale_to_int fuel (r * 10) (e - 1))"

definition shortest_decimal :: "real \<Rightarrow> (nat \<times> int) option" where
  "shortest_decimal r =
     (case scale_to_int 400 r 0 of None \<Rightarrow> None | Some (s, e) \<Rightarrow> Some (strip_zeros s e))"

definition finite_number :: "real \<Rightarrow> bool" where
  "finite_number r = (shortest_decimal \<bar>r\<bar> \<noteq> None)"

text \<open>
  The digits of a positive number, steps 5 to 10 of \<open>Number::toString\<close>: with \<open>k\<close> the
  number of digits of \<open>s\<close> and \<open>n = e + k\<close>, the digits followed by zeros when
  \<open>k \<le> n \<le> 21\<close>; the digits with a point after the first \<open>n\<close> when \<open>0 < n \<le> 21\<close>;
  \<open>0.\<close>, zeros and the digits when \<open>-6 < n \<le> 0\<close>; and otherwise the first digit, a
  point before the other digits if there are any, \<open>e\<close>, the sign of \<open>n - 1\<close> and its
  decimal. Zero prints as \<open>0\<close> and a negative number as \<open>-\<close> and the digits of its
  opposite; what is no number prints as \<open>NaN\<close>.
\<close>

definition number_digits :: "nat \<Rightarrow> int \<Rightarrow> string" where
  "number_digits s e =
     (let digits = show_nat s; k = int (length digits); n = e + k
      in if k \<le> n \<and> n \<le> 21 then digits @ replicate (nat (n - k)) CHR ''0''
         else if 0 < n \<and> n \<le> 21 then take (nat n) digits @ ''.'' @ drop (nat n) digits
         else if - 6 < n \<and> n \<le> 0 then ''0.'' @ replicate (nat (- n)) CHR ''0'' @ digits
         else (if k = 1 then digits else take 1 digits @ ''.'' @ drop 1 digits) @ ''e'' @
              (if n - 1 < 0 then ''-'' else ''+'') @ show_nat (nat \<bar>n - 1\<bar>))"

definition number_toString :: "real \<Rightarrow> string" where
  "number_toString r =
     (if r = 0 then ''0''
      else (case shortest_decimal \<bar>r\<bar> of
              None \<Rightarrow> ''NaN''
            | Some (s, e) \<Rightarrow> (if r < 0 then ''-'' else []) @ number_digits s e))"

subsection \<open>JSON.parse\<close>

text \<open>
  A number of the JSON grammar: an optional \<open>-\<close>; an integer part, \<open>0\<close> or digits that
  do not start with \<open>0\<close>; an optional fraction, a point and one digit or more; an optional
  exponent, \<open>e\<close> or \<open>E\<close>, an optional sign and one digit or more. The text is cut at the
  first \<open>e\<close> or \<open>E\<close> and what is before it at the first point; each part is then read,
  and a part that is not of the grammar makes the text no number.
\<close>

definition integer_part :: "string \<Rightarrow> nat option" where
  "integer_part whole =
     (if whole = [] \<or> (hd whole = CHR ''0'' \<and> tl whole \<noteq> []) then None
      else decimal_value 0 whole)"

definition fraction_part :: "string \<Rightarrow> (nat \<times> nat) option" where
  "fraction_part fraction =
     (case fraction of
        [] \<Rightarrow> Some (0, 0)
      | point # ds \<Rightarrow>
          if ds = [] then None else map_option (\<lambda>f. (f, length ds)) (decimal_value 0 ds))"

definition exponent_part :: "string \<Rightarrow> int option" where
  "exponent_part exponent =
     (case exponent of
        [] \<Rightarrow> Some 0
      | indicator # signed \<Rightarrow>
          (case signed of
             [] \<Rightarrow> None
           | c # ds \<Rightarrow>
               if c = CHR ''-'' then
                 (if ds = [] then None else map_option (\<lambda>n. - int n) (decimal_value 0 ds))
               else if c = CHR ''+'' then
                 (if ds = [] then None else map_option int (decimal_value 0 ds))
               else map_option int (decimal_value 0 signed)))"

definition json_number :: "string \<Rightarrow> real option" where
  "json_number t =
     (let negative = (t \<noteq> [] \<and> hd t = CHR ''-'');
          body = (if negative then tl t else t);
          mantissa = takeWhile (\<lambda>c. c \<noteq> CHR ''e'' \<and> c \<noteq> CHR ''E'') body;
          exponent = dropWhile (\<lambda>c. c \<noteq> CHR ''e'' \<and> c \<noteq> CHR ''E'') body;
          whole = takeWhile (\<lambda>c. c \<noteq> CHR ''.'') mantissa;
          fraction = dropWhile (\<lambda>c. c \<noteq> CHR ''.'') mantissa
      in case integer_part whole of
           None \<Rightarrow> None
         | Some i \<Rightarrow>
             (case fraction_part fraction of
                None \<Rightarrow> None
              | Some (f, d) \<Rightarrow>
                  (case exponent_part exponent of
                     None \<Rightarrow> None
                   | Some x \<Rightarrow>
                       Some ((if negative then - 1 else 1) * (real i + real f / 10 ^ d) *
                             10 powi x))))"

text \<open>
  \<open>JSON.parse\<close> on the texts a vector column holds: a number or a literal, or an array of
  numbers and literals between brackets, separated by commas, with white space allowed
  around every token. On every other text the answer is \<open>None\<close>, the error of
  \<open>JSON.parse\<close>; strings, objects and arrays within arrays, texts which \<open>JSON.parse\<close>
  accepts, are outside this model. The argument is first converted to a string.
\<close>

definition json_whitespace :: "char \<Rightarrow> bool" where
  "json_whitespace c = (c = CHR 0x20 \<or> c = CHR 0x09 \<or> c = CHR 0x0A \<or> c = CHR 0x0D)"

definition trim :: "string \<Rightarrow> string" where
  "trim t = rev (dropWhile json_whitespace (rev (dropWhile json_whitespace t)))"

fun split_on :: "char \<Rightarrow> string \<Rightarrow> string list" where
  "split_on c [] = [[]]"
| "split_on c (x # xs) =
     (if x = c then [] # split_on c xs
      else (case split_on c xs of [] \<Rightarrow> [[x]] | y # ys \<Rightarrow> (x # y) # ys))"

definition json_scalar :: "string \<Rightarrow> jsval option" where
  "json_scalar t =
     (if t = ''null'' then Some Null
      else if t = ''true'' then Some (Bool True)
      else if t = ''false'' then Some (Bool False)
      else map_option Num (json_number t))"

definition json_text :: "string \<Rightarrow> jsval option" where
  "json_text t =
     (let u = trim t
      in case json_scalar u of
           Some v \<Rightarrow> Some v
         | None \<Rightarrow>
             (if 2 \<le> length u \<and> hd u = CHR ''['' \<and> last u = CHR '']'' then
                (let inner = trim (butlast (tl u))
                 in if inner = [] then Some (Arr [])
                    else map_option Arr
                           (those (map (\<lambda>element. json_scalar (trim element))
                                     (split_on CHR '','' inner))))
              else None))"

definition language_builtins :: js_builtins where
  "language_builtins =
     \<lparr> Number_toString = number_toString,
       JSON_parse =
         (\<lambda>v. json_text (ToString \<lparr> Number_toString = number_toString,
                                     JSON_parse = (\<lambda>v. None) \<rparr> v)) \<rparr>"

text \<open>The characters of a printed number.\<close>

definition number_chars :: "char set" where
  "number_chars = set digit_chars \<union> {CHR ''.'', CHR ''e'', CHR ''+'', CHR ''-''}"

section \<open>The algebra of statements\<close>

lemma append_statement_SQL: "append_statement st (SQL s) = append_string st s"
  by (cases st) (simp add: SQL_def)

lemma append_statement_string:
  "append_statement a (append_string b s) = append_string (append_statement a b) s"
proof (cases a)
  case A: (SQLStatement ps l)
  show ?thesis
  proof (cases b)
    case (SQLStatement qs m)
    with A show ?thesis by (cases qs) auto
  qed
qed

lemma append_statement_assoc:
  "append_statement a (append_statement b c) = append_statement (append_statement a b) c"
proof (cases a)
  case A: (SQLStatement ps l)
  show ?thesis
  proof (cases b)
    case B: (SQLStatement qs m)
    show ?thesis
    proof (cases c)
      case (SQLStatement rs n)
      with A B show ?thesis by (cases qs; cases rs) auto
    qed
  qed
qed

lemma append_string_string:
  "append_string (append_string st s) t = append_string st (s @ t)"
  by (cases st) simp

lemma append_string_empty: "append_string st [] = st"
  by (cases st) simp

lemma append_string_SQL: "append_string (SQL s) t = SQL (s @ t)"
  by (simp add: SQL_def)

lemma append_single:
  "append_statement st (SQLStatement [(s, v)] l) =
     append_string (append_statement (append_string st s) (SQL_value v)) l"
  by (cases st) (simp add: SQL_value_def)

lemma append_double:
  "append_statement st (SQLStatement [(s, v), (t, w)] l) =
     append_string
       (append_statement
          (append_string (append_statement (append_string st s) (SQL_value v)) t)
          (SQL_value w)) l"
  by (cases st) (simp add: SQL_value_def)

lemma render_onto_append: "render_onto st (ps @ qs) = render_onto (render_onto st ps) qs"
  by (simp add: render_onto_def)

lemma render_onto_Nil: "render_onto st [] = st"
  by (simp add: render_onto_def)

lemma render_onto_Cons: "render_onto st (p # ps) = render_onto (add_piece st p) ps"
  by (simp add: render_onto_def)

lemma append_add_piece:
  "append_statement st (add_piece t p) = add_piece (append_statement st t) p"
  by (cases p) (simp_all add: append_statement_string append_statement_assoc)

lemma append_render_onto:
  "append_statement st (render_onto t ps) = render_onto (append_statement st t) ps"
  by (induction ps arbitrary: t) (simp_all add: render_onto_Nil render_onto_Cons append_add_piece)

lemma append_render: "append_statement st (render ps) = render_onto st ps"
  by (simp add: render_def append_render_onto append_statement_SQL append_string_empty)

lemma text_from_snoc:
  "text_from i (qs @ [(l, v)]) m = text_from i qs l @ ''$'' @ show_nat (i + length qs) @ m"
  by (induction qs arbitrary: i) auto

lemma text_from_last: "text_from i qs (l @ s) = text_from i qs l @ s"
  by (induction qs arbitrary: i) auto

lemma text_render_onto:
  "text_of (render_onto (SQLStatement qs l) ps) =
     text_from 1 qs l @ piece_text (Suc (length qs)) ps"
proof (induction ps arbitrary: qs l)
  case Nil
  show ?case by (simp add: render_onto_Nil)
next
  case (Cons p ps)
  show ?case
  proof (cases p)
    case (Lit s)
    then show ?thesis by (simp add: render_onto_Cons Cons text_from_last)
  next
    case (Ident n)
    then show ?thesis by (simp add: render_onto_Cons Cons text_from_last)
  next
    case (Param v)
    then show ?thesis
      by (simp add: render_onto_Cons Cons SQL_value_def text_from_snoc)
  qed
qed

lemma text_render: "text_of (render ps) = piece_text 1 ps"
  by (simp add: render_def SQL_def text_render_onto)

lemma values_render_onto:
  "values_of (render_onto st ps) = values_of st @ params ps"
proof (induction ps arbitrary: st)
  case Nil
  show ?case by (simp add: render_onto_Nil)
next
  case (Cons p ps)
  show ?case
  proof (cases st)
    case (SQLStatement qs l)
    then show ?thesis by (cases p) (simp_all add: render_onto_Cons Cons SQL_value_def)
  qed
qed

lemma values_render: "values_of (render ps) = params ps"
  by (simp add: render_def SQL_def values_render_onto)

lemma separated_Cons:
  "separated sep (g # gs) = g @ (if gs = [] then [] else sep @ separated sep gs)"
  by (cases gs) simp_all

section \<open>The scope filter\<close>

lemma scope_template_Nil: "scope_template [] = []"
  by (simp add: scope_template_def)

lemma scope_template_Cons:
  "scope_template ((k, v) # es) =
     [Ident k, Lit '' = '', Param (nullish v Null)] @
     (if es = [] then [] else Lit '' AND '' # scope_template es)"
  by (simp add: scope_template_def separated_Cons)

lemma scope_loop_render:
  "scope_loop st first es =
     render_onto st ((if first \<or> es = [] then [] else [Lit '' AND '']) @ scope_template es)"
proof (induction es arbitrary: st first)
  case Nil
  show ?case by (simp add: render_onto_Nil scope_template_def)
next
  case (Cons e es)
  obtain k v where e: "e = (k, v)" by (cases e)
  show ?case
    by (simp add: e Cons scope_template_Cons scope_template_Nil render_onto_Cons
        render_onto_Nil render_onto_append append_statement_SQL append_single append_string_empty)
qed

lemma createScopeFilter_render: "createScopeFilter scope = render (scope_template scope)"
  by (cases scope)
    (simp_all add: createScopeFilter_def scope_loop_render render_def render_onto_Nil
      scope_template_def)

lemma piece_text_scope:
  "piece_text i (scope_template es) =
     join_with '' AND '' (map equality_clause (enumerate i (map fst es)))"
proof (induction es arbitrary: i)
  case Nil
  show ?case by (simp add: scope_template_def)
next
  case (Cons e es)
  obtain k v where e: "e = (k, v)" by (cases e)
  show ?case
  proof (cases es)
    case Nil
    then show ?thesis by (simp add: e scope_template_Cons equality_clause_def)
  next
    case (Cons e' es')
    then show ?thesis
      using Cons.IH [of "Suc i"] by (simp add: e scope_template_Cons equality_clause_def)
  qed
qed

lemma params_scope: "params (scope_template es) = map (\<lambda>(k, v). nullish v Null) es"
proof (induction es)
  case Nil
  show ?case by (simp add: scope_template_def)
next
  case (Cons e es)
  obtain k v where e: "e = (k, v)" by (cases e)
  show ?case using Cons by (simp add: e scope_template_Cons)
qed

lemma piece_text_scope_empty: "piece_text i (scope_template es) = [] \<longleftrightarrow> es = []"
proof (cases es)
  case Nil
  then show ?thesis by (simp add: scope_template_def)
next
  case (Cons e es')
  obtain k v where e: "e = (k, v)" by (cases e)
  show ?thesis by (simp add: Cons e scope_template_Cons createIdentifier_def)
qed

lemma scope_filter_text_empty: "length (text_of (createScopeFilter scope)) > 0 \<longleftrightarrow> scope \<noteq> []"
  by (simp add: createScopeFilter_render text_render piece_text_scope_empty)

text \<open>
  Claim C2. For a scope mapping of K entries the text of the scope filter is K clauses,
  each a quoted key followed by \<open> = $i\<close> for the i-th bound value, joined by AND in the
  order of the entries; the bound values are the values of the entries, null for an
  undefined one; and the text is empty exactly when K is 0.
\<close>

theorem scope_filter_clauses:
  "text_of (createScopeFilter scope) =
     join_with '' AND '' (map equality_clause (enumerate 1 (map fst scope)))
   \<and> values_of (createScopeFilter scope) = map (\<lambda>(k, v). nullish v Null) scope
   \<and> length (map equality_clause (enumerate 1 (map fst scope))) = length scope
   \<and> (text_of (createScopeFilter scope) = [] \<longleftrightarrow> length scope = 0)"
proof -
  have t: "text_of (createScopeFilter scope) = piece_text 1 (scope_template scope)"
    by (simp add: createScopeFilter_render text_render)
  have "text_of (createScopeFilter scope) =
      join_with '' AND '' (map equality_clause (enumerate 1 (map fst scope)))"
    unfolding t piece_text_scope by simp
  moreover have "values_of (createScopeFilter scope) = map (\<lambda>(k, v). nullish v Null) scope"
    by (simp add: createScopeFilter_render values_render params_scope)
  moreover have "(text_of (createScopeFilter scope) = []) = (length scope = 0)"
    unfolding t piece_text_scope_empty by simp
  ultimately show ?thesis by simp
qed

section \<open>Objects\<close>

lemma keys_obj_update: "map fst (obj_update k v ob) = map fst ob"
  by (induction k v ob rule: obj_update.induct) auto

lemma keys_insert_index: "set (map fst (insert_index n k v ob)) = insert k (set (map fst ob))"
proof (induction n k v ob rule: insert_index.induct)
  case (1 n k v)
  show ?case by simp
next
  case (2 n k v k' v' ps)
  show ?case
  proof (cases "array_index k'")
    case None
    then show ?thesis by simp
  next
    case (Some m)
    show ?thesis
    proof (cases "m < n")
      case True
      with Some 2 show ?thesis by (simp add: insert_commute)
    next
      case False
      with Some show ?thesis by simp
    qed
  qed
qed

lemma distinct_insert_index:
  "distinct (map fst ob) \<Longrightarrow> k \<notin> set (map fst ob) \<Longrightarrow> distinct (map fst (insert_index n k v ob))"
proof (induction ob)
  case Nil
  show ?case by simp
next
  case (Cons p ob)
  obtain k' v' where p: "p = (k', v')" by (cases p)
  from Cons.prems have d: "distinct (map fst ob)" and nk: "k \<notin> set (map fst ob)" and kk: "k \<noteq> k'"
    and k': "k' \<notin> set (map fst ob)"
    by (auto simp: p)
  have "distinct (map fst (insert_index n k v ob))" using Cons.IH d nk by simp
  moreover have "k' \<notin> set (map fst (insert_index n k v ob))"
    unfolding keys_insert_index using k' kk by simp
  ultimately show ?case using Cons.prems by (auto simp: p split: option.splits)
qed

lemma distinct_obj_define:
  "distinct (map fst ob) \<Longrightarrow> distinct (map fst (obj_define k v ob))"
  by (auto simp: obj_define_def keys_obj_update distinct_insert_index split: option.splits)

lemma distinct_fold_define:
  "distinct (map fst target) \<Longrightarrow>
   distinct (map fst (fold (\<lambda>(k, v). obj_define k v) source target))"
  by (induction source arbitrary: target) (auto simp: distinct_obj_define)

lemma distinct_obj_spread:
  "distinct (map fst target) \<Longrightarrow> distinct (map fst (obj_spread target source))"
  by (simp add: obj_spread_def distinct_fold_define)

lemma obj_get_own: "distinct (map fst ob) \<Longrightarrow> (k, v) \<in> set ob \<Longrightarrow> obj_get ob k = v"
  by (simp add: obj_get_def)

lemma obj_get_keys: "distinct (map fst ob) \<Longrightarrow> map (obj_get ob) (map fst ob) = map snd ob"
  by (simp add: obj_get_own)

lemma key_in: "(k, v) \<in> set xs \<Longrightarrow> k \<in> fst ` set xs"
  by force

lemma obj_update_append_left:
  "k \<in> set (map fst xs) \<Longrightarrow> obj_update k w (xs @ ys) = obj_update k w xs @ ys"
proof (induction xs)
  case Nil
  then show ?case by simp
next
  case (Cons p xs)
  obtain k' v' where p: "p = (k', v')" by (cases p)
  show ?case
  proof (cases "k' = k")
    case True
    then show ?thesis by (simp add: p)
  next
    case False
    with Cons.prems have "k \<in> set (map fst xs)" by (simp add: p)
    with Cons.IH False show ?thesis by (simp add: p)
  qed
qed

lemma obj_update_map_override:
  assumes "distinct (map fst scope)" and "k \<notin> set (map fst dn)"
  shows "obj_update k w (map (\<lambda>(k', v). (k', case map_of dn k' of Some x \<Rightarrow> x | None \<Rightarrow> v)) scope) =
         map (\<lambda>(k', v). (k', case map_of (dn @ [(k, w)]) k' of Some x \<Rightarrow> x | None \<Rightarrow> v)) scope"
  using assms(1)
proof (induction scope)
  case Nil
  show ?case by simp
next
  case (Cons p scope)
  obtain k' v' where p: "p = (k', v')" by (cases p)
  from Cons.prems have d: "distinct (map fst scope)" and nk: "k' \<notin> set (map fst scope)"
    by (auto simp: p)
  have none: "map_of dn k = None" using assms(2) by (simp add: map_of_eq_None_iff)
  show ?case
  proof (cases "k' = k")
    case True
    have same: "map (\<lambda>(k', v). (k', case map_of dn k' of Some x \<Rightarrow> x | None \<Rightarrow> v)) scope =
       map (\<lambda>(k', v). (k', case map_of (dn @ [(k, w)]) k' of Some x \<Rightarrow> x | None \<Rightarrow> v)) scope"
      using nk True by (auto simp: map_add_def split: option.splits dest: key_in)
    show ?thesis using True none by (simp add: p same map_add_def)
  next
    case False
    then show ?thesis using Cons.IH [OF d] by (simp add: p map_add_def split: option.splits)
  qed
qed

lemma map_override_snoc_other:
  assumes "k \<notin> set (map fst scope)"
  shows "map (\<lambda>(k', v). (k', case map_of (dn @ [(k, w)]) k' of Some x \<Rightarrow> x | None \<Rightarrow> v)) scope =
         map (\<lambda>(k', v). (k', case map_of dn k' of Some x \<Rightarrow> x | None \<Rightarrow> v)) scope"
  using assms by (auto simp: map_add_def split: option.splits dest: key_in)

lemma keys_merge_entries:
  "set (map fst (merge_entries scope dn)) = set (map fst scope) \<union> set (map fst dn)"
proof -
  have a: "map fst (map (\<lambda>(k, v). (k, case map_of dn k of Some w \<Rightarrow> w | None \<Rightarrow> v)) scope) =
      map fst scope"
    by (simp add: case_prod_beta comp_def)
  have b: "set (map fst (filter (\<lambda>(k, w). k \<notin> set (map fst scope)) dn)) =
      set (map fst dn) - set (map fst scope)"
    by (auto simp: case_prod_beta)
  show ?thesis
    unfolding merge_entries_def map_append set_append a b by auto
qed

lemma define_merge_entries:
  assumes "distinct (map fst scope)" and "k \<notin> set (map fst dn)" and "array_index k = None"
  shows "obj_define k w (merge_entries scope dn) = merge_entries scope (dn @ [(k, w)])"
proof (cases "k \<in> set (map fst scope)")
  case True
  have in_left: "k \<in> set (map fst (map (\<lambda>(k', v). (k', case map_of dn k' of Some x \<Rightarrow> x | None \<Rightarrow> v)) scope))"
    using True by (simp add: case_prod_beta comp_def)
  have "k \<in> set (map fst (merge_entries scope dn))"
    unfolding keys_merge_entries using True by simp
  then have "obj_define k w (merge_entries scope dn) = obj_update k w (merge_entries scope dn)"
    by (simp add: obj_define_def)
  also have "\<dots> = merge_entries scope (dn @ [(k, w)])"
    unfolding merge_entries_def obj_update_append_left [OF in_left]
      obj_update_map_override [OF assms(1,2)]
    using True by simp
  finally show ?thesis .
next
  case False
  have "k \<notin> set (map fst (merge_entries scope dn))"
    unfolding keys_merge_entries using False assms(2) by simp
  then have "obj_define k w (merge_entries scope dn) = merge_entries scope dn @ [(k, w)]"
    using assms(3) by (simp add: obj_define_def)
  also have "\<dots> = merge_entries scope (dn @ [(k, w)])"
    unfolding merge_entries_def map_override_snoc_other [OF False]
    using False by simp
  finally show ?thesis .
qed

lemma fold_define_merge:
  assumes "distinct (map fst scope)"
  shows "distinct (map fst (dn @ rest)) \<Longrightarrow> \<forall>k \<in> set (map fst rest). array_index k = None \<Longrightarrow>
     fold (\<lambda>(k, v). obj_define k v) rest (merge_entries scope dn) = merge_entries scope (dn @ rest)"
proof (induction rest arbitrary: dn)
  case Nil
  show ?case by simp
next
  case (Cons p rest)
  obtain k w where p: "p = (k, w)" by (cases p)
  from Cons.prems have nk: "k \<notin> set (map fst dn)" and ai: "array_index k = None"
    by (auto simp: p)
  have step: "obj_define k w (merge_entries scope dn) = merge_entries scope (dn @ [(k, w)])"
    using define_merge_entries [OF assms nk ai] .
  have "fold (\<lambda>(k, v). obj_define k v) rest (merge_entries scope (dn @ [(k, w)])) =
      merge_entries scope ((dn @ [(k, w)]) @ rest)"
    using Cons.prems by (intro Cons.IH) (auto simp: p)
  then show ?case by (simp add: p step)
qed

lemma spread_empty_plain:
  "distinct (map fst ob) \<Longrightarrow> \<forall>k \<in> set (map fst ob). array_index k = None \<Longrightarrow>
   obj_spread [] ob = ob"
  using fold_define_merge [of "[]" "[]" ob]
  by (simp add: obj_spread_def merge_entries_def)

lemma spread_merge:
  assumes "distinct (map fst scope)" and "distinct (map fst object)"
    and "\<forall>k \<in> set (map fst scope) \<union> set (map fst object). array_index k = None"
  shows "obj_spread (obj_spread [] scope) object = merge_entries scope object"
proof -
  have s: "obj_spread [] scope = scope"
    using assms by (intro spread_empty_plain) auto
  have m: "merge_entries scope [] = scope"
    by (simp add: merge_entries_def case_prod_beta)
  have "fold (\<lambda>(k, v). obj_define k v) object (merge_entries scope []) = merge_entries scope ([] @ object)"
    using assms by (intro fold_define_merge) auto
  then show ?thesis by (simp add: s [unfolded obj_spread_def] m obj_spread_def)
qed

lemma columns_render:
  "append_string st (join_with '', '' (map createIdentifier names)) =
     render_onto st (separated [Lit '', ''] (map (\<lambda>n. [Ident n]) names))"
proof (induction names arbitrary: st)
  case Nil
  show ?case by (simp add: render_onto_Nil append_string_empty)
next
  case (Cons n names)
  show ?case
  proof (cases names)
    case Nil
    then show ?thesis by (simp add: render_onto_Cons render_onto_Nil)
  next
    case (Cons m ms)
    have "append_string st (createIdentifier n @ '', '' @ join_with '', '' (map createIdentifier names))
        = append_string (append_string (append_string st (createIdentifier n)) '', '')
            (join_with '', '' (map createIdentifier names))"
      by (simp add: append_string_string)
    then show ?thesis
      using Cons Cons.IH by (simp add: render_onto_Cons)
  qed
qed

lemma values_loop_render:
  "values_loop rt st vs =
     render_onto st (separated [Lit '', ''] (map (\<lambda>v. [Param (bind_value rt v)]) vs))"
proof (induction vs arbitrary: st)
  case Nil
  show ?case by (simp add: render_onto_Nil)
next
  case (Cons v vs)
  show ?case
  proof (cases vs)
    case Nil
    then show ?thesis by (simp add: render_onto_Cons render_onto_Nil)
  next
    case (Cons w ws)
    then show ?thesis
      using Cons.IH by (simp add: render_onto_Cons append_statement_SQL)
  qed
qed

lemma createInsertQuery_render:
  "createInsertQuery rt table object scope mapFunction =
     render (insert_template rt table mapFunction (obj_spread (obj_spread [] scope) object))"
proof -
  define merged where "merged = obj_spread (obj_spread [] scope) object"
  have d: "distinct (map fst merged)"
    unfolding merged_def by (intro distinct_obj_spread) simp
  have v: "map (\<lambda>key. obj_get merged key) (map fst merged) = map snd merged"
    using obj_get_keys [OF d] .
  have c: "map (\<lambda>key. createIdentifier (case mapFunction of Some f \<Rightarrow> f key | None \<Rightarrow> key))
             (map fst merged) = map createIdentifier (map (column_name mapFunction) (map fst merged))"
    by (simp add: column_name_def)
  have s1: "map (\<lambda>(k, v). [Ident (column_name mapFunction k)]) merged =
      map (\<lambda>n. [Ident n]) (map (column_name mapFunction) (map fst merged))"
    by (simp add: case_prod_beta)
  have s2: "map (\<lambda>(k, v). [Param (bind_value rt v)]) merged =
      map (\<lambda>v. [Param (bind_value rt v)]) (map snd merged)"
    by (simp add: case_prod_beta)
  show ?thesis
    unfolding createInsertQuery_def Let_def merged_def [symmetric] v c
      insert_template_def s1 s2 render_def
    by (simp add: columns_render values_loop_render render_onto_append render_onto_Cons
        render_onto_Nil append_statement_SQL append_string_empty append_string_SQL del: map_map)
qed

section \<open>The insert statement\<close>

lemma piece_text_append:
  "piece_text i (ps @ qs) = piece_text i ps @ piece_text (i + length (params ps)) qs"
proof (induction ps arbitrary: i)
  case Nil
  show ?case by simp
next
  case (Cons p ps)
  show ?case by (cases p) (simp_all add: Cons)
qed

lemma params_append: "params (ps @ qs) = params ps @ params qs"
proof (induction ps)
  case Nil
  show ?case by simp
next
  case (Cons p ps)
  then show ?case by (cases p) simp_all
qed

lemma piece_text_idents:
  "piece_text i (separated [Lit sep] (map (\<lambda>n. [Ident n]) names)) =
     join_with sep (map createIdentifier names)"
proof (induction names)
  case Nil
  show ?case by simp
next
  case (Cons n names)
  then show ?case by (cases names) simp_all
qed

lemma params_idents: "params (separated [Lit sep] (map (\<lambda>n. [Ident n]) names)) = []"
proof (induction names)
  case Nil
  show ?case by simp
next
  case (Cons n names)
  then show ?case by (cases names) simp_all
qed

lemma join_with_Cons: "ys \<noteq> [] \<Longrightarrow> join_with sep (x # ys) = x @ sep @ join_with sep ys"
  by (cases ys) simp_all

lemma piece_text_params:
  "piece_text i (separated [Lit sep] (map (\<lambda>v. [Param (f v)]) vs)) =
     join_with sep (map placeholder [i ..< i + length vs])"
proof (induction vs arbitrary: i)
  case Nil
  show ?case by simp
next
  case (Cons v vs)
  have "i < i + length (v # vs)" by simp
  from upt_conv_Cons [OF this]
  have r: "[i ..< i + length (v # vs)] = i # [Suc i ..< Suc i + length vs]"
    by simp
  show ?case
  proof (cases vs)
    case Nil
    then show ?thesis by (simp add: placeholder_def)
  next
    case (Cons w ws)
    then have ne: "map placeholder [Suc i ..< Suc i + length vs] \<noteq> []" by simp
    have "piece_text i (separated [Lit sep] (map (\<lambda>v. [Param (f v)]) (v # vs))) =
        placeholder i @ sep @ piece_text (Suc i) (separated [Lit sep] (map (\<lambda>v. [Param (f v)]) vs))"
      using Cons by (simp add: placeholder_def)
    also have "\<dots> = placeholder i @ sep @ join_with sep (map placeholder [Suc i ..< Suc i + length vs])"
      by (simp only: Cons.IH)
    also have "\<dots> = join_with sep (map placeholder [i ..< i + length (v # vs)])"
      unfolding r using join_with_Cons [OF ne] by simp
    finally show ?thesis .
  qed
qed

lemma params_params: "params (separated [Lit sep] (map (\<lambda>v. [Param (f v)]) vs)) = map f vs"
proof (induction vs)
  case Nil
  show ?case by simp
next
  case (Cons v vs)
  then show ?case by (cases vs) simp_all
qed

lemma insert_template_text:
  "piece_text 1 (insert_template rt table mapFunction merged) =
     ''INSERT INTO '' @ createIdentifier table @ '' ('' @
     join_with '', '' (map (\<lambda>(k, v). createIdentifier (column_name mapFunction k)) merged) @
     '') VALUES ('' @ join_with '', '' (map placeholder [1 ..< Suc (length merged)]) @
     '') RETURNING '' @ [dq] @ ''id'' @ [dq]"
proof -
  have s1: "map (\<lambda>(k, v). [Ident (column_name mapFunction k)]) merged =
      map (\<lambda>n. [Ident n]) (map (column_name mapFunction) (map fst merged))"
    by (simp add: case_prod_beta)
  have s2: "map (\<lambda>(k, v). [Param (bind_value rt v)]) merged =
      map (\<lambda>v. [Param (bind_value rt v)]) (map snd merged)"
    by (simp add: case_prod_beta)
  have s3: "map (\<lambda>(k, v). createIdentifier (column_name mapFunction k)) merged =
      map createIdentifier (map (column_name mapFunction) (map fst merged))"
    by (simp add: case_prod_beta)
  show ?thesis
    unfolding insert_template_def s1 s2 s3
    by (simp add: piece_text_append piece_text_idents params_idents piece_text_params
        del: map_map)
qed

lemma insert_template_params:
  "params (insert_template rt table mapFunction merged) = map (\<lambda>(k, v). bind_value rt v) merged"
proof -
  have s1: "map (\<lambda>(k, v). [Ident (column_name mapFunction k)]) merged =
      map (\<lambda>n. [Ident n]) (map (column_name mapFunction) (map fst merged))"
    by (simp add: case_prod_beta)
  have s2: "map (\<lambda>(k, v). [Param (bind_value rt v)]) merged =
      map (\<lambda>v. [Param (bind_value rt v)]) (map snd merged)"
    by (simp add: case_prod_beta)
  have s4: "map (\<lambda>(k, v). bind_value rt v) merged = map (bind_value rt) (map snd merged)"
    by (simp add: case_prod_beta)
  show ?thesis
    unfolding insert_template_def s1 s2 s4
    by (simp add: params_append params_idents params_params del: map_map)
qed

lemma map_of_obj_update:
  "k \<in> set (map fst ob) \<Longrightarrow> map_of (obj_update k v ob) = (map_of ob)(k \<mapsto> v)"
proof (induction ob)
  case Nil
  then show ?case by simp
next
  case (Cons p ob)
  obtain k' v' where p: "p = (k', v')" by (cases p)
  show ?case
  proof (cases "k' = k")
    case True
    then show ?thesis by (auto simp: p fun_eq_iff)
  next
    case False
    with Cons.prems have "k \<in> set (map fst ob)" by (simp add: p)
    from Cons.IH [OF this] False show ?thesis by (auto simp: p fun_eq_iff)
  qed
qed

lemma map_of_insert_index:
  "map_of (insert_index n k v ob) = (map_of ob)(k \<mapsto> v)"
  if "k \<notin> set (map fst ob)"
  using that
proof (induction ob)
  case Nil
  show ?case by simp
next
  case (Cons p ob)
  obtain k' v' where p: "p = (k', v')" by (cases p)
  from Cons.prems have nk: "k \<notin> set (map fst ob)" and kk: "k' \<noteq> k" by (auto simp: p)
  from Cons.IH [OF nk] kk show ?case
    by (auto simp: p fun_eq_iff split: option.splits)
qed

lemma map_of_snoc:
  "k \<notin> set (map fst ob) \<Longrightarrow> map_of (ob @ [(k, v)]) = (map_of ob)(k \<mapsto> v)"
proof (induction ob)
  case Nil
  show ?case by simp
next
  case (Cons p ob)
  obtain k' v' where p: "p = (k', v')" by (cases p)
  from Cons.prems have nk: "k \<notin> set (map fst ob)" and kk: "k' \<noteq> k" by (auto simp: p)
  from Cons.IH [OF nk] kk show ?case
    by (auto simp: p fun_eq_iff)
qed

lemma map_of_obj_define: "map_of (obj_define k v ob) = (map_of ob)(k \<mapsto> v)"
proof (cases "k \<in> set (map fst ob)")
  case True
  then show ?thesis by (simp add: obj_define_def map_of_obj_update)
next
  case False
  then show ?thesis
    by (cases "array_index k")
      (simp_all add: obj_define_def map_of_insert_index map_of_snoc del: map_of_append)
qed

lemma map_of_fold_define:
  "map_of (fold (\<lambda>(k, v). obj_define k v) source target) = map_of target ++ map_of (rev source)"
proof (induction source arbitrary: target)
  case Nil
  show ?case by simp
next
  case (Cons p source)
  obtain k v where p: "p = (k, v)" by (cases p)
  have "fold (\<lambda>(k, v). obj_define k v) (p # source) target =
      fold (\<lambda>(k, v). obj_define k v) source (obj_define k v target)"
    by (simp add: p)
  then have "map_of (fold (\<lambda>(k, v). obj_define k v) (p # source) target) =
      (map_of target)(k \<mapsto> v) ++ map_of (rev source)"
    by (simp only: Cons map_of_obj_define)
  also have "\<dots> = map_of target ++ map_of (rev (p # source))"
    by (simp add: p map_of_append fun_eq_iff map_add_def split: option.splits)
  finally show ?case .
qed

lemma map_of_rev_distinct: "distinct (map fst xs) \<Longrightarrow> map_of (rev xs) = map_of xs"
proof (induction xs)
  case Nil
  show ?case by simp
next
  case (Cons p xs)
  obtain k v where p: "p = (k, v)" by (cases p)
  from Cons.prems have nk: "k \<notin> set (map fst xs)" and d: "distinct (map fst xs)"
    by (auto simp: p)
  have n: "map_of xs k = None" using nk by (simp add: map_of_eq_None_iff)
  show ?case
    using Cons.IH [OF d] n
    by (auto simp: p map_of_append fun_eq_iff map_add_def split: option.splits)
qed

lemma obj_get_spread:
  assumes "distinct (map fst scope)" and "distinct (map fst object)"
  shows "obj_get (obj_spread (obj_spread [] scope) object) k =
     (if k \<in> set (map fst object) then obj_get object k else obj_get scope k)"
proof -
  have "map_of (obj_spread (obj_spread [] scope) object) = map_of scope ++ map_of object"
    by (simp add: obj_spread_def map_of_fold_define map_of_rev_distinct assms)
  moreover have "k \<in> set (map fst object) \<longleftrightarrow> map_of object k \<noteq> None"
    by (simp add: map_of_eq_None_iff)
  ultimately show ?thesis
    by (cases "map_of object k") (simp_all add: obj_get_def map_add_def)
qed


lemma plain_key_pair: "plain_key (k, v) \<longleftrightarrow> array_index k = None"
  by (simp add: plain_key_def)

lemma filter_plain_update_plain:
  "array_index k = None \<Longrightarrow>
   filter plain_key (obj_update k v ob) = obj_update k v (filter plain_key ob)"
  by (induction k v ob rule: obj_update.induct) (auto simp: plain_key_def)

lemma filter_plain_update_index:
  "array_index k = Some n \<Longrightarrow> filter plain_key (obj_update k v ob) = filter plain_key ob"
  by (induction k v ob rule: obj_update.induct) (auto simp: plain_key_def)

lemma filter_plain_insert_index:
  "array_index k = Some n \<Longrightarrow> filter plain_key (insert_index m k v ob) = filter plain_key ob"
  by (induction m k v ob rule: insert_index.induct) (auto simp: plain_key_def split: option.splits)

lemma keys_filter_plain:
  "array_index k = None \<Longrightarrow>
   k \<in> set (map fst (filter plain_key ob)) \<longleftrightarrow> k \<in> set (map fst ob)"
  by (induction ob) (auto simp: plain_key_def)

lemma filter_plain_define:
  "filter plain_key (obj_define k v ob) =
     (if array_index k = None then obj_define k v (filter plain_key ob) else filter plain_key ob)"
proof (cases "array_index k")
  case None
  then have p: "plain_key (k, v)" by (simp add: plain_key_def)
  show ?thesis
    using None p keys_filter_plain [OF None, of ob]
    by (simp add: obj_define_def filter_plain_update_plain)
next
  case (Some n)
  then show ?thesis
    by (simp add: obj_define_def filter_plain_update_index filter_plain_insert_index)
qed

lemma filter_plain_fold:
  "filter plain_key (fold (\<lambda>(k, v). obj_define k v) source target) =
     fold (\<lambda>(k, v). obj_define k v) (filter plain_key source) (filter plain_key target)"
proof (induction source arbitrary: target)
  case Nil
  show ?case by simp
next
  case (Cons p source)
  obtain k v where p: "p = (k, v)" by (cases p)
  show ?case
    by (cases "array_index k") (simp_all add: p Cons filter_plain_define plain_key_pair)
qed

lemma filter_plain_spread:
  assumes "distinct (map fst scope)" and "distinct (map fst object)"
  shows "filter plain_key (obj_spread (obj_spread [] scope) object) =
     merge_entries (filter plain_key scope) (filter plain_key object)"
proof -
  have "filter plain_key (obj_spread (obj_spread [] scope) object) =
      obj_spread (obj_spread [] (filter plain_key scope)) (filter plain_key object)"
    by (simp add: obj_spread_def filter_plain_fold)
  also have "\<dots> = merge_entries (filter plain_key scope) (filter plain_key object)"
  proof (rule spread_merge)
    show "distinct (map fst (filter plain_key scope))"
      using assms(1) by (rule distinct_map_filter)
    show "distinct (map fst (filter plain_key object))"
      using assms(2) by (rule distinct_map_filter)
    show "\<forall>k \<in> set (map fst (filter plain_key scope)) \<union> set (map fst (filter plain_key object)).
        array_index k = None"
      by (auto simp: plain_key_def)
  qed
  finally show ?thesis .
qed


lemma set_insert_index: "set (insert_index n k v ob) = insert (k, v) (set ob)"
  by (induction n k v ob rule: insert_index.induct) (auto split: option.splits)

lemma insert_index_append:
  assumes "\<forall>p \<in> set b. plain_key p"
  shows "\<forall>p \<in> set a. \<not> plain_key p \<Longrightarrow> insert_index n k v (a @ b) = insert_index n k v a @ b"
proof (induction a)
  case Nil
  show ?case
  proof (cases b)
    case Nil
    then show ?thesis by simp
  next
    case (Cons p ps)
    obtain k' v' where p: "p = (k', v')" by (cases p)
    from assms Cons have "array_index k' = None" by (simp add: p plain_key_pair)
    then show ?thesis by (simp add: Cons p)
  qed
next
  case (Cons p a)
  obtain k' v' where p: "p = (k', v')" by (cases p)
  from Cons.prems have "\<forall>p \<in> set a. \<not> plain_key p" by simp
  from Cons.IH [OF this] show ?case by (simp add: p split: option.splits)
qed

lemma sorted_insert_index:
  assumes "array_index k = Some n"
  shows "\<forall>p \<in> set a. \<not> plain_key p \<Longrightarrow> sorted (map index_of_key a) \<Longrightarrow>
     sorted (map index_of_key (insert_index n k v a))"
proof (induction a)
  case Nil
  show ?case by simp
next
  case (Cons p a)
  obtain k' v' where p: "p = (k', v')" by (cases p)
  from Cons.prems obtain m where m: "array_index k' = Some m"
    by (auto simp: p plain_key_pair)
  have ik: "index_of_key (k, v) = n" using assms by (simp add: index_of_key_def)
  have ik': "index_of_key (k', v') = m" using m by (simp add: index_of_key_def)
  from Cons.prems have a: "\<forall>p \<in> set a. \<not> plain_key p" and s: "sorted (map index_of_key a)"
    and le: "\<forall>q \<in> set a. m \<le> index_of_key q"
    by (auto simp: p ik')
  show ?case
  proof (cases "m < n")
    case True
    have "sorted (map index_of_key (insert_index n k v a))" using Cons.IH [OF a s] .
    moreover have "\<forall>q \<in> set (insert_index n k v a). m \<le> index_of_key q"
      unfolding set_insert_index using le True ik by auto
    ultimately show ?thesis using True m by (simp add: p ik')
  next
    case False
    then have "n \<le> m" by simp
    moreover from this le have "\<forall>q \<in> set a. n \<le> index_of_key q" by auto
    ultimately show ?thesis using False m s le by (simp add: p ik ik')
  qed
qed

lemma obj_update_append:
  "obj_update k v (a @ b) =
     (if k \<in> set (map fst a) then obj_update k v a @ b else a @ obj_update k v b)"
  by (induction a) (auto dest: key_in)

lemma plain_keys: "(\<forall>p \<in> set xs. plain_key p) \<longleftrightarrow> (\<forall>k \<in> set (map fst xs). array_index k = None)"
  by (auto simp: plain_key_def)

lemma index_keys: "(\<forall>p \<in> set xs. \<not> plain_key p) \<longleftrightarrow> (\<forall>k \<in> set (map fst xs). array_index k \<noteq> None)"
  by (auto simp: plain_key_def)

lemma index_of_keys:
  "map index_of_key xs = map (\<lambda>k. case array_index k of None \<Rightarrow> 0 | Some n \<Rightarrow> n) (map fst xs)"
  by (simp add: index_of_key_def)

lemma define_index_first:
  assumes a: "\<forall>p \<in> set a. \<not> plain_key p" and b: "\<forall>p \<in> set b. plain_key p"
    and s: "sorted (map index_of_key a)"
  shows "\<exists>a' b'. obj_define k v (a @ b) = a' @ b' \<and> (\<forall>p \<in> set a'. \<not> plain_key p)
     \<and> (\<forall>p \<in> set b'. plain_key p) \<and> sorted (map index_of_key a')"
proof (cases "k \<in> set (map fst (a @ b))")
  case True
  then have d: "obj_define k v (a @ b) = obj_update k v (a @ b)" by (simp add: obj_define_def)
  show ?thesis
  proof (cases "k \<in> set (map fst a)")
    case True
    have "obj_define k v (a @ b) = obj_update k v a @ b"
      using True by (simp add: d obj_update_append)
    moreover have "\<forall>p \<in> set (obj_update k v a). \<not> plain_key p"
      using a unfolding index_keys keys_obj_update .
    moreover have "sorted (map index_of_key (obj_update k v a))"
      using s unfolding index_of_keys keys_obj_update .
    ultimately show ?thesis using b by blast
  next
    case False
    have "obj_define k v (a @ b) = a @ obj_update k v b"
      using False by (simp add: d obj_update_append)
    moreover have "\<forall>p \<in> set (obj_update k v b). plain_key p"
      using b unfolding plain_keys keys_obj_update .
    ultimately show ?thesis using a s by blast
  qed
next
  case False
  show ?thesis
  proof (cases "array_index k")
    case None
    have "obj_define k v (a @ b) = a @ (b @ [(k, v)])"
      using False None by (simp add: obj_define_def)
    moreover have "\<forall>p \<in> set (b @ [(k, v)]). plain_key p"
      using b None by (simp add: plain_key_pair)
    ultimately show ?thesis using a s by blast
  next
    case (Some n)
    have "obj_define k v (a @ b) = insert_index n k v a @ b"
      using False Some insert_index_append [OF b a] by (simp add: obj_define_def)
    moreover have "\<forall>p \<in> set (insert_index n k v a). \<not> plain_key p"
      unfolding set_insert_index using a Some by (simp add: plain_key_pair)
    moreover have "sorted (map index_of_key (insert_index n k v a))"
      using sorted_insert_index [OF Some a s] .
    ultimately show ?thesis using b by blast
  qed
qed

lemma fold_define_index_first:
  "\<forall>p \<in> set a. \<not> plain_key p \<Longrightarrow> \<forall>p \<in> set b. plain_key p \<Longrightarrow> sorted (map index_of_key a) \<Longrightarrow>
   \<exists>a' b'. fold (\<lambda>(k, v). obj_define k v) source (a @ b) = a' @ b'
     \<and> (\<forall>p \<in> set a'. \<not> plain_key p) \<and> (\<forall>p \<in> set b'. plain_key p)
     \<and> sorted (map index_of_key a')"
proof (induction source arbitrary: a b)
  case Nil
  then show ?case by auto
next
  case (Cons q source)
  obtain k v where q: "q = (k, v)" by (cases q)
  from define_index_first [OF Cons.prems, of k v]
  obtain a' b' where d: "obj_define k v (a @ b) = a' @ b'"
    and a': "\<forall>p \<in> set a'. \<not> plain_key p" and b': "\<forall>p \<in> set b'. plain_key p"
    and s': "sorted (map index_of_key a')"
    by blast
  from Cons.IH [OF a' b' s'] show ?case by (simp add: q d)
qed

lemma spread_index_first:
  "obj_spread (obj_spread [] scope) object =
     filter (\<lambda>p. \<not> plain_key p) (obj_spread (obj_spread [] scope) object) @
     filter plain_key (obj_spread (obj_spread [] scope) object)
   \<and> sorted (map index_of_key
       (filter (\<lambda>p. \<not> plain_key p) (obj_spread (obj_spread [] scope) object)))"
proof -
  have "\<exists>a b. obj_spread [] scope = a @ b \<and> (\<forall>p \<in> set a. \<not> plain_key p)
      \<and> (\<forall>p \<in> set b. plain_key p) \<and> sorted (map index_of_key a)"
    using fold_define_index_first [of "[]" "[]" scope] by (simp add: obj_spread_def)
  then obtain a b where "obj_spread [] scope = a @ b" "\<forall>p \<in> set a. \<not> plain_key p"
      "\<forall>p \<in> set b. plain_key p" "sorted (map index_of_key a)"
    by blast
  from fold_define_index_first [OF this(2,3,4), of object] this(1)
  obtain a' b' where m: "obj_spread (obj_spread [] scope) object = a' @ b'"
    and a': "\<forall>p \<in> set a'. \<not> plain_key p" and b': "\<forall>p \<in> set b'. plain_key p"
    and s': "sorted (map index_of_key a')"
    by (auto simp: obj_spread_def)
  have f1: "filter (\<lambda>p. \<not> plain_key p) (a' @ b') = a'" using a' b' by (simp add: filter_empty_conv)
  have f2: "filter plain_key (a' @ b') = b'" using a' b' by (simp add: filter_empty_conv)
  show ?thesis unfolding m f1 f2 using s' by simp
qed

lemma keys_fold_define:
  "set (map fst (fold (\<lambda>(k, v). obj_define k v) source target)) =
     set (map fst target) \<union> set (map fst source)"
proof -
  have "dom (map_of (fold (\<lambda>(k, v). obj_define k v) source target)) =
      dom (map_of target) \<union> dom (map_of (rev source))"
    by (simp add: map_of_fold_define Un_commute)
  then show ?thesis by (simp add: dom_map_of_conv_image_fst)
qed

lemma keys_spread:
  "set (map fst (obj_spread (obj_spread [] scope) object)) =
     set (map fst scope) \<union> set (map fst object)"
  by (simp add: obj_spread_def keys_fold_define del: set_map)

text \<open>
  Claim C5, as amended. For every table, scope and record, the insert emits one quoted
  column and one bound value per entry of the merged object \<open>{...scope, ...object}\<close>, in
  the order of that object's keys, an array bound as the string of its elements in
  brackets, and it ends with the clause that returns the key. The merged object has the
  keys of the scope and of the record, each once, with the value of the record for a key
  of the record and the value of the scope for another. Its keys that are array indices
  come first, in ascending order; its other keys stand scope first, record second, a key
  of both at its place in the scope. With no array index among the keys the merged
  entries are those of the scope followed by those of the record.
\<close>

theorem insert_query_merged:
  "text_of (createInsertQuery rt table object scope mapFunction) =
     ''INSERT INTO '' @ createIdentifier table @ '' ('' @
     join_with '', ''
       (map (\<lambda>(k, v). createIdentifier (column_name mapFunction k)) (merged_object scope object)) @
     '') VALUES ('' @
     join_with '', '' (map placeholder [1 ..< Suc (length (merged_object scope object))]) @
     '') RETURNING '' @ [dq] @ ''id'' @ [dq]
   \<and> values_of (createInsertQuery rt table object scope mapFunction) =
     map (\<lambda>(k, v). case v of Arr xs \<Rightarrow> Str (''['' @ array_join rt '','' xs @ '']'') | _ \<Rightarrow> v)
       (merged_object scope object)
   \<and> distinct (map fst (merged_object scope object))
   \<and> set (map fst (merged_object scope object)) = set (map fst scope) \<union> set (map fst object)
   \<and> merged_object scope object =
       filter (\<lambda>p. \<not> plain_key p) (merged_object scope object) @
       filter plain_key (merged_object scope object)
   \<and> sorted (map index_of_key (filter (\<lambda>p. \<not> plain_key p) (merged_object scope object)))
   \<and> (distinct (map fst scope) \<longrightarrow> distinct (map fst object) \<longrightarrow>
        obj_get (merged_object scope object) key =
          (if key \<in> set (map fst object) then obj_get object key else obj_get scope key)
        \<and> filter plain_key (merged_object scope object) =
            merge_entries (filter plain_key scope) (filter plain_key object)
        \<and> ((\<forall>k \<in> set (map fst scope) \<union> set (map fst object). array_index k = None) \<longrightarrow>
             merged_object scope object = merge_entries scope object))"
proof -
  have q: "createInsertQuery rt table object scope mapFunction =
      render (insert_template rt table mapFunction (merged_object scope object))"
    unfolding merged_object_def by (rule createInsertQuery_render)
  have b: "(\<lambda>(k, v). bind_value rt v) =
      (\<lambda>(k, v). case v of Arr xs \<Rightarrow> Str (''['' @ array_join rt '','' xs @ '']'') | _ \<Rightarrow> v)"
    by (simp add: bind_value_def fun_eq_iff)
  have c1: "text_of (createInsertQuery rt table object scope mapFunction) =
     ''INSERT INTO '' @ createIdentifier table @ '' ('' @
     join_with '', ''
       (map (\<lambda>(k, v). createIdentifier (column_name mapFunction k)) (merged_object scope object)) @
     '') VALUES ('' @
     join_with '', '' (map placeholder [1 ..< Suc (length (merged_object scope object))]) @
     '') RETURNING '' @ [dq] @ ''id'' @ [dq]"
    unfolding q text_render insert_template_text by simp
  have c2: "values_of (createInsertQuery rt table object scope mapFunction) =
     map (\<lambda>(k, v). case v of Arr xs \<Rightarrow> Str (''['' @ array_join rt '','' xs @ '']'') | _ \<Rightarrow> v)
       (merged_object scope object)"
    unfolding q values_render insert_template_params b by simp
  have c3: "distinct (map fst (merged_object scope object))"
    unfolding merged_object_def by (intro distinct_obj_spread) simp
  have c4: "set (map fst (merged_object scope object)) = set (map fst scope) \<union> set (map fst object)"
    unfolding merged_object_def by (rule keys_spread)
  have c5: "merged_object scope object =
       filter (\<lambda>p. \<not> plain_key p) (merged_object scope object) @
       filter plain_key (merged_object scope object)"
    and c6: "sorted (map index_of_key (filter (\<lambda>p. \<not> plain_key p) (merged_object scope object)))"
    unfolding merged_object_def using spread_index_first [of scope object] by simp_all
  have c7: "distinct (map fst scope) \<longrightarrow> distinct (map fst object) \<longrightarrow>
        obj_get (merged_object scope object) key =
          (if key \<in> set (map fst object) then obj_get object key else obj_get scope key)
        \<and> filter plain_key (merged_object scope object) =
            merge_entries (filter plain_key scope) (filter plain_key object)
        \<and> ((\<forall>k \<in> set (map fst scope) \<union> set (map fst object). array_index k = None) \<longrightarrow>
             merged_object scope object = merge_entries scope object)"
  proof (intro impI conjI)
    assume d1: "distinct (map fst scope)" and d2: "distinct (map fst object)"
    show "obj_get (merged_object scope object) key =
          (if key \<in> set (map fst object) then obj_get object key else obj_get scope key)"
      unfolding merged_object_def using d1 d2 by (rule obj_get_spread)
    show "filter plain_key (merged_object scope object) =
            merge_entries (filter plain_key scope) (filter plain_key object)"
      unfolding merged_object_def using d1 d2 by (rule filter_plain_spread)
    assume "\<forall>k \<in> set (map fst scope) \<union> set (map fst object). array_index k = None"
    with d1 d2 show "merged_object scope object = merge_entries scope object"
      unfolding merged_object_def by (rule spread_merge)
  qed
  from c1 c2 c3 c4 c5 c6 c7 show ?thesis by (intro conjI)
qed

theorem insert_query_merged_witness:
  "distinct (map fst [(''scope'', Str ''test'')])
   \<and> distinct (map fst [(''text'', Str ''Hello''), (''vector'', Arr [Num 1, Num 2, Num 3]),
         (''document'', Num 7)])
   \<and> list_all (\<lambda>k. array_index k = None) [''scope'', ''text'', ''vector'', ''document'']
   \<and> merged_object [(''scope'', Str ''test'')]
         [(''text'', Str ''Hello''), (''vector'', Arr [Num 1, Num 2, Num 3]), (''document'', Num 7)] =
       [(''scope'', Str ''test''), (''text'', Str ''Hello''),
        (''vector'', Arr [Num 1, Num 2, Num 3]), (''document'', Num 7)]
   \<and> text_of (createInsertQuery example_builtins ''embeddings''
         [(''text'', Str ''Hello''), (''vector'', Arr [Num 1, Num 2, Num 3]), (''document'', Num 7)]
         [(''scope'', Str ''test'')] None) =
       ''INSERT INTO '' @ [dq] @ ''embeddings'' @ [dq] @ '' ('' @ [dq] @ ''scope'' @ [dq] @ '', ''
         @ [dq] @ ''text'' @ [dq] @ '', '' @ [dq] @ ''vector'' @ [dq] @ '', '' @ [dq]
         @ ''document'' @ [dq] @ '') VALUES ($1, $2, $3, $4) RETURNING '' @ [dq] @ ''id'' @ [dq]
   \<and> values_of (createInsertQuery example_builtins ''embeddings''
         [(''text'', Str ''Hello''), (''vector'', Arr [Num 1, Num 2, Num 3]), (''document'', Num 7)]
         [(''scope'', Str ''test'')] None) =
       [Str ''test'', Str ''Hello'', Str ''[1,2,3]'', Num 7]"
proof -
  have h1: "distinct (map fst [(''scope'', Str ''test'')])" by simp
  have h2: "distinct (map fst [(''text'', Str ''Hello''), (''vector'', Arr [Num 1, Num 2, Num 3]),
         (''document'', Num 7)])" by simp
  have h3: "\<forall>k \<in> set (map fst [(''scope'', Str ''test'')]) \<union>
      set (map fst [(''text'', Str ''Hello''), (''vector'', Arr [Num 1, Num 2, Num 3]),
         (''document'', Num 7)]). array_index k = None"
    by (simp add: array_index_def digit_value_def digit_chars_def)
  have h4: "list_all (\<lambda>k. array_index k = None) [''scope'', ''text'', ''vector'', ''document'']"
    by (simp add: array_index_def digit_value_def digit_chars_def)
  note t = insert_query_merged [of example_builtins "''embeddings''"
      "[(''text'', Str ''Hello''), (''vector'', Arr [Num 1, Num 2, Num 3]), (''document'', Num 7)]"
      "[(''scope'', Str ''test'')]" None]
  from t h1 h2 h3
  have m: "merged_object [(''scope'', Str ''test'')]
         [(''text'', Str ''Hello''), (''vector'', Arr [Num 1, Num 2, Num 3]), (''document'', Num 7)] =
       merge_entries [(''scope'', Str ''test'')]
         [(''text'', Str ''Hello''), (''vector'', Arr [Num 1, Num 2, Num 3]), (''document'', Num 7)]"
    by blast
  then have m': "merged_object [(''scope'', Str ''test'')]
         [(''text'', Str ''Hello''), (''vector'', Arr [Num 1, Num 2, Num 3]), (''document'', Num 7)] =
       [(''scope'', Str ''test''), (''text'', Str ''Hello''),
        (''vector'', Arr [Num 1, Num 2, Num 3]), (''document'', Num 7)]"
    by (simp add: merge_entries_def)
  from t [THEN conjunct1]
  have x: "text_of (createInsertQuery example_builtins ''embeddings''
         [(''text'', Str ''Hello''), (''vector'', Arr [Num 1, Num 2, Num 3]), (''document'', Num 7)]
         [(''scope'', Str ''test'')] None) =
       ''INSERT INTO '' @ [dq] @ ''embeddings'' @ [dq] @ '' ('' @ [dq] @ ''scope'' @ [dq] @ '', ''
         @ [dq] @ ''text'' @ [dq] @ '', '' @ [dq] @ ''vector'' @ [dq] @ '', '' @ [dq]
         @ ''document'' @ [dq] @ '') VALUES ($1, $2, $3, $4) RETURNING '' @ [dq] @ ''id'' @ [dq]"
    unfolding m'
    by (simp add: placeholder_def column_name_def createIdentifier_def
        show_nat.simps digit_chars_def upt_rec dq_def)
  from t [THEN conjunct2, THEN conjunct1]
  have v: "values_of (createInsertQuery example_builtins ''embeddings''
         [(''text'', Str ''Hello''), (''vector'', Arr [Num 1, Num 2, Num 3]), (''document'', Num 7)]
         [(''scope'', Str ''test'')] None) =
       [Str ''test'', Str ''Hello'', Str ''[1,2,3]'', Num 7]"
    unfolding m'
    by (simp add: show_nat.simps digit_chars_def array_join_def example_builtins_def)
  from h1 h2 h4 m' x v show ?thesis by (intro conjI)
qed

text \<open>
  The order scope first, record second fails on a key that is an array index: with the scope
  \<open>{scope: "test"}\<close> and the record \<open>{"0": "x"}\<close> the merged object lists the key
  \<open>0\<close> of the record before the key of the scope, so the first column and the first
  bound value are those of the record.
\<close>

theorem insert_query_index_key_counterexample:
  "createInsertQuery example_builtins ''t'' [(''0'', Str ''x'')] [(''scope'', Str ''test'')] None \<noteq>
     render (insert_template example_builtins ''t'' None
       (merge_entries [(''scope'', Str ''test'')] [(''0'', Str ''x'')]))
   \<and> text_of (createInsertQuery example_builtins ''t'' [(''0'', Str ''x'')]
         [(''scope'', Str ''test'')] None) =
       ''INSERT INTO '' @ [dq] @ ''t'' @ [dq] @ '' ('' @ [dq] @ ''0'' @ [dq] @ '', '' @ [dq]
         @ ''scope'' @ [dq] @ '') VALUES ($1, $2) RETURNING '' @ [dq] @ ''id'' @ [dq]
   \<and> values_of (createInsertQuery example_builtins ''t'' [(''0'', Str ''x'')]
         [(''scope'', Str ''test'')] None) = [Str ''x'', Str ''test'']"
proof -
  have m: "obj_spread (obj_spread [] [(''scope'', Str ''test'')]) [(''0'', Str ''x'')] =
      [(''0'', Str ''x''), (''scope'', Str ''test'')]"
    by (simp add: obj_spread_def obj_define_def array_index_def digit_value_def)
  have q: "createInsertQuery example_builtins ''t'' [(''0'', Str ''x'')] [(''scope'', Str ''test'')] None =
      render (insert_template example_builtins ''t'' None [(''0'', Str ''x''), (''scope'', Str ''test'')])"
    by (simp add: createInsertQuery_render m)
  have t1: "text_of (createInsertQuery example_builtins ''t'' [(''0'', Str ''x'')]
         [(''scope'', Str ''test'')] None) =
       ''INSERT INTO '' @ [dq] @ ''t'' @ [dq] @ '' ('' @ [dq] @ ''0'' @ [dq] @ '', '' @ [dq]
         @ ''scope'' @ [dq] @ '') VALUES ($1, $2) RETURNING '' @ [dq] @ ''id'' @ [dq]"
    unfolding q text_render insert_template_text
    by (simp add: placeholder_def column_name_def createIdentifier_def show_nat.simps
        digit_chars_def upt_rec dq_def)
  have t2: "text_of (render (insert_template example_builtins ''t'' None
       (merge_entries [(''scope'', Str ''test'')] [(''0'', Str ''x'')]))) =
       ''INSERT INTO '' @ [dq] @ ''t'' @ [dq] @ '' ('' @ [dq] @ ''scope'' @ [dq] @ '', '' @ [dq]
         @ ''0'' @ [dq] @ '') VALUES ($1, $2) RETURNING '' @ [dq] @ ''id'' @ [dq]"
    unfolding text_render insert_template_text
    by (simp add: merge_entries_def placeholder_def column_name_def createIdentifier_def
        show_nat.simps digit_chars_def upt_rec dq_def)
  have ne: "createInsertQuery example_builtins ''t'' [(''0'', Str ''x'')] [(''scope'', Str ''test'')] None \<noteq>
     render (insert_template example_builtins ''t'' None
       (merge_entries [(''scope'', Str ''test'')] [(''0'', Str ''x'')]))"
  proof
    assume "createInsertQuery example_builtins ''t'' [(''0'', Str ''x'')] [(''scope'', Str ''test'')] None =
     render (insert_template example_builtins ''t'' None
       (merge_entries [(''scope'', Str ''test'')] [(''0'', Str ''x'')]))"
    then have "text_of (createInsertQuery example_builtins ''t'' [(''0'', Str ''x'')] [(''scope'', Str ''test'')] None) =
     text_of (render (insert_template example_builtins ''t'' None
       (merge_entries [(''scope'', Str ''test'')] [(''0'', Str ''x'')])))"
      by simp
    then show False unfolding t1 t2 by (simp add: dq_def)
  qed
  have v: "values_of (createInsertQuery example_builtins ''t'' [(''0'', Str ''x'')]
         [(''scope'', Str ''test'')] None) = [Str ''x'', Str ''test'']"
    unfolding q values_render insert_template_params by (simp add: bind_value_def)
  from ne t1 v show ?thesis by simp
qed

section \<open>Every statement is the statement of its template\<close>

lemma text_render_scope_empty: "text_of (render (scope_template s)) = [] \<longleftrightarrow> s = []"
  by (simp add: text_render piece_text_scope_empty)

lemmas render_simps = text_render_scope_empty createScopeFilter_render render_onto_append render_onto_Cons render_onto_Nil
  append_statement_SQL append_single append_double append_string_empty append_string_SQL
  append_string_string append_statement_string append_statement_assoc append_render

lemma lookup_statement_render: "lookup_statement st reference = render (lookup_template st reference)"
proof (cases "documentScope st = []")
  case True
  then show ?thesis
    unfolding render_def
    by (simp add: lookup_statement_def lookup_template_def scope_condition_def Let_def render_simps)
next
  case False
  then show ?thesis
    unfolding render_def
    by (simp add: lookup_statement_def lookup_template_def scope_condition_def Let_def render_simps)
qed

lemma delete_statement_render: "delete_statement st document = render (delete_template st document)"
proof (cases "documentScope st = []")
  case True
  then show ?thesis
    unfolding render_def
    by (simp add: delete_statement_def delete_template_def scope_condition_def Let_def render_simps)
next
  case False
  then show ?thesis
    unfolding render_def
    by (simp add: delete_statement_def delete_template_def scope_condition_def Let_def render_simps)
qed

lemma documents_statement_render: "documents_statement st = render (documents_template st)"
proof (cases "documentScope st = []")
  case True
  then show ?thesis
    unfolding render_def
    by (simp add: documents_statement_def documents_template_def scope_condition_def Let_def render_simps)
next
  case False
  then show ?thesis
    unfolding render_def
    by (simp add: documents_statement_def documents_template_def scope_condition_def Let_def render_simps)
qed

lemma query_statement_render:
  "query_statement rt st operator vector documents limit offset =
     render (query_template rt st operator vector documents limit offset)"
proof (cases "embeddingScope st = []")
  case True
  then show ?thesis
    unfolding render_def
    by (cases documents)
      (simp_all add: query_statement_def query_template_def filter_templates_def Let_def render_simps)
next
  case False
  then show ?thesis
    unfolding render_def
    by (cases documents)
      (simp_all add: query_statement_def query_template_def filter_templates_def Let_def render_simps)
qed

lemma keys_revalue: "map fst (revalue f ob) = map fst ob"
  by (simp add: revalue_def case_prod_beta)

lemma length_revalue: "length (revalue f ob) = length ob"
  by (simp add: revalue_def)

lemma revalue_empty: "revalue f ob = [] \<longleftrightarrow> ob = []"
  by (simp add: revalue_def)

lemma keys_insert_index_cong:
  "map fst a = map fst b \<Longrightarrow>
   map fst (insert_index n k v a) = map fst (insert_index n k w b)"
proof (induction a arbitrary: b)
  case Nil
  then show ?case by simp
next
  case (Cons p a)
  then obtain q b' where b: "b = q # b'" by (cases b) auto
  obtain k1 v1 where p: "p = (k1, v1)" by (cases p)
  obtain k2 v2 where q: "q = (k2, v2)" by (cases q)
  from Cons.prems have k: "k2 = k1" and r: "map fst a = map fst b'" by (simp_all add: b p q)
  from Cons.IH [OF r] show ?case
    by (simp add: b p q k r split: option.splits)
qed

lemma keys_obj_define_cong:
  assumes "map fst a = map fst b"
  shows "map fst (obj_define k v a) = map fst (obj_define k w b)"
proof (cases "k \<in> set (map fst a)")
  case True
  then show ?thesis using assms by (simp add: obj_define_def keys_obj_update)
next
  case False
  then have "k \<notin> set (map fst b)" using assms by simp
  then show ?thesis
    using False assms keys_insert_index_cong [OF assms]
    by (simp add: obj_define_def split: option.splits)
qed

lemma keys_fold_define_cong:
  "map fst s = map fst s' \<Longrightarrow> map fst a = map fst b \<Longrightarrow>
   map fst (fold (\<lambda>(k, v). obj_define k v) s a) = map fst (fold (\<lambda>(k, v). obj_define k v) s' b)"
proof (induction s arbitrary: s' a b)
  case Nil
  then show ?case by simp
next
  case (Cons p s)
  then obtain q t where s': "s' = q # t" by (cases s') auto
  obtain k1 v1 where p: "p = (k1, v1)" by (cases p)
  obtain k2 v2 where q: "q = (k2, v2)" by (cases q)
  from Cons.prems have k: "k2 = k1" and r: "map fst s = map fst t" by (simp_all add: s' p q)
  have "map fst (obj_define k1 v1 a) = map fst (obj_define k1 v2 b)"
    using Cons.prems(2) by (rule keys_obj_define_cong)
  from Cons.IH [OF r this] show ?case by (simp add: s' p q k)
qed

lemma keys_spread_revalue:
  "map fst (obj_spread (obj_spread [] (revalue f scope)) (revalue g object)) =
   map fst (obj_spread (obj_spread [] scope) object)"
  unfolding obj_spread_def
  by (intro keys_fold_define_cong) (simp_all add: keys_revalue)

lemma insert_template_text_keys:
  assumes "map fst merged' = map fst merged"
  shows "piece_text 1 (insert_template rt' table mapFunction merged') =
     piece_text 1 (insert_template rt table mapFunction merged)"
proof -
  have c: "map (\<lambda>(k, v). createIdentifier (column_name mapFunction k)) m =
      map (\<lambda>k. createIdentifier (column_name mapFunction k)) (map fst m)" for m :: obj
    by (simp add: case_prod_beta)
  have l: "length merged' = length merged"
    using assms by (metis length_map)
  show ?thesis
    unfolding insert_template_text c assms l ..
qed

lemma insert_text_revalue:
  "text_of (createInsertQuery rt' table (revalue g object) (revalue f scope) mapFunction) =
   text_of (createInsertQuery rt table object scope mapFunction)"
  unfolding createInsertQuery_render text_render
  by (rule insert_template_text_keys) (rule keys_spread_revalue)

lemma scope_text_revalue:
  "text_of (createScopeFilter (revalue f scope)) = text_of (createScopeFilter scope)"
  by (simp add: createScopeFilter_render text_render piece_text_scope keys_revalue)

lemma piece_text_scope_condition:
  "piece_text i (scope_condition keyword scope) =
     (if scope = [] then []
      else keyword @ join_with '' AND '' (map equality_clause (enumerate i (map fst scope))))"
  by (simp add: scope_condition_def piece_text_scope)

lemma params_scope_condition:
  "length (params (scope_condition keyword scope)) = length scope"
  by (simp add: scope_condition_def params_scope)

lemma lookup_text_revalue:
  "text_of (lookup_statement (st\<lparr>documentScope := revalue f (documentScope st)\<rparr>) reference') =
   text_of (lookup_statement st reference)"
  by (simp add: lookup_statement_render text_render lookup_template_def piece_text_append
      piece_text_scope_condition keys_revalue revalue_empty length_revalue)

lemma delete_text_revalue:
  "text_of (delete_statement (st\<lparr>documentScope := revalue f (documentScope st)\<rparr>) reference') =
   text_of (delete_statement st reference)"
  by (simp add: delete_statement_render text_render delete_template_def piece_text_append
      piece_text_scope_condition keys_revalue revalue_empty length_revalue)

lemma documents_text_revalue:
  "text_of (documents_statement (st\<lparr>documentScope := revalue f (documentScope st)\<rparr>)) =
   text_of (documents_statement st)"
  by (simp add: documents_statement_render text_render documents_template_def piece_text_append
      piece_text_scope_condition keys_revalue revalue_empty length_revalue)

lemma query_text_revalue:
  "text_of (query_statement rt' (st\<lparr>embeddingScope := revalue f (embeddingScope st)\<rparr>) operator
      vector' (map_option g documents) limit' offset') =
   text_of (query_statement rt st operator vector documents limit offset)"
proof (cases documents)
  case None
  then show ?thesis
    by (simp add: query_statement_render text_render query_template_def filter_templates_def
        piece_text_append piece_text_scope params_scope keys_revalue revalue_empty length_revalue)
next
  case (Some ds)
  then show ?thesis
    by (simp add: query_statement_render text_render query_template_def filter_templates_def
        piece_text_append piece_text_scope params_scope params_append keys_revalue revalue_empty length_revalue)
qed

text \<open>
  Claim C1. Each statement the store generates (scope filter, insert, distance query,
  lookup, deletion, listing) is the statement of a template in which every table and
  column name is a name quoted by \<open>createIdentifier\<close> and every data value (the scope
  values, the values of the record, the serialized query vector, the list of documents,
  the limit, the offset, the reference) is a bound value. A bound value leaves only its
  placeholder in the text of a statement, and the bound values of a statement are those
  of its template, in order. So the text of each statement stays the same when the data
  values are replaced by any others.
\<close>

theorem statements_quote_names_and_bind_values:
  "createScopeFilter scope = render (scope_template scope)
   \<and> createInsertQuery rt table object scope mapFunction =
       render (insert_template rt table mapFunction (obj_spread (obj_spread [] scope) object))
   \<and> query_statement rt st operator vector documents limit offset =
       render (query_template rt st operator vector documents limit offset)
   \<and> lookup_statement st reference = render (lookup_template st reference)
   \<and> delete_statement st reference = render (delete_template st reference)
   \<and> documents_statement st = render (documents_template st)
   \<and> text_of (render ps) = piece_text 1 ps
   \<and> values_of (render ps) = params ps
   \<and> text_of (createScopeFilter (revalue f scope)) = text_of (createScopeFilter scope)
   \<and> text_of (createInsertQuery rt' table (revalue g object) (revalue f scope) mapFunction) =
       text_of (createInsertQuery rt table object scope mapFunction)
   \<and> text_of (query_statement rt' (st\<lparr>embeddingScope := revalue f (embeddingScope st)\<rparr>)
         operator vector' (map_option h documents) limit' offset') =
       text_of (query_statement rt st operator vector documents limit offset)
   \<and> text_of (lookup_statement (st\<lparr>documentScope := revalue f (documentScope st)\<rparr>)
         reference') = text_of (lookup_statement st reference)
   \<and> text_of (delete_statement (st\<lparr>documentScope := revalue f (documentScope st)\<rparr>)
         reference') = text_of (delete_statement st reference)
   \<and> text_of (documents_statement (st\<lparr>documentScope := revalue f (documentScope st)\<rparr>)) =
       text_of (documents_statement st)"
proof -
  have templates: "createScopeFilter scope = render (scope_template scope)
     \<and> createInsertQuery rt table object scope mapFunction =
       render (insert_template rt table mapFunction (obj_spread (obj_spread [] scope) object))
     \<and> query_statement rt st operator vector documents limit offset =
       render (query_template rt st operator vector documents limit offset)
     \<and> lookup_statement st reference = render (lookup_template st reference)
     \<and> delete_statement st reference = render (delete_template st reference)
     \<and> documents_statement st = render (documents_template st)
     \<and> text_of (render ps) = piece_text 1 ps
     \<and> values_of (render ps) = params ps"
    by (simp only: createScopeFilter_render createInsertQuery_render query_statement_render
        lookup_statement_render delete_statement_render documents_statement_render
        text_render values_render simp_thms)
  show ?thesis
    by (intro conjI templates [THEN conjunct1]
        templates [THEN conjunct2, THEN conjunct1]
        templates [THEN conjunct2, THEN conjunct2, THEN conjunct1]
        templates [THEN conjunct2, THEN conjunct2, THEN conjunct2, THEN conjunct1]
        templates [THEN conjunct2, THEN conjunct2, THEN conjunct2, THEN conjunct2, THEN conjunct1]
        templates [THEN conjunct2, THEN conjunct2, THEN conjunct2, THEN conjunct2, THEN conjunct2,
          THEN conjunct1]
        text_render values_render scope_text_revalue insert_text_revalue query_text_revalue
        lookup_text_revalue delete_text_revalue documents_text_revalue)
qed

section \<open>Looking a document up\<close>

lemma lookup_statement_text:
  "text_of (lookup_statement st reference) =
     ''SELECT * FROM '' @ createIdentifier (documentTable st) @ '' WHERE '' @ [dq] @ ''id''
     @ [dq] @ '' = $1'' @
     (if documentScope st = [] then []
      else '' AND '' @
           join_with '' AND '' (map equality_clause (enumerate 2 (map fst (documentScope st)))))"
  by (simp add: lookup_statement_render text_render lookup_template_def scope_condition_def
      piece_text_append piece_text_scope show_nat.simps digit_chars_def numeral_2_eq_2)

lemma lookup_statement_values:
  "values_of (lookup_statement st reference) =
     reference # map (\<lambda>(k, v). nullish v Null) (documentScope st)"
  by (simp add: lookup_statement_render values_render lookup_template_def scope_condition_def
      params_append params_scope)

text \<open>
  Claim C8. The lookup selects by the primary key and the scope filter of the documents:
  its text is \<open>SELECT * FROM table WHERE "id" = $1\<close>, followed by AND and the
  clauses of the scope when the scope is not empty, and it binds the reference and the
  scope values. When the executor answers with no row, \<open>getDocumentByReference\<close>
  completes normally with undefined (\<open>None\<close>); when it answers with rows, the result is
  the first row; an error of the executor is passed on.
\<close>

theorem getDocumentByReference_absent_or_first:
  "text_of (lookup_statement st reference) =
     ''SELECT * FROM '' @ createIdentifier (documentTable st) @ '' WHERE '' @ [dq] @ ''id''
     @ [dq] @ '' = $1'' @
     (if documentScope st = [] then []
      else '' AND '' @
           join_with '' AND '' (map equality_clause (enumerate 2 (map fst (documentScope st)))))
   \<and> values_of (lookup_statement st reference) =
       reference # map (\<lambda>(k, v). nullish v Null) (documentScope st)
   \<and> (pool (lookup_statement st reference) db = (Inr [], db') \<longrightarrow>
        getDocumentByReference st pool reference db = (Inr None, db'))
   \<and> (pool (lookup_statement st reference) db = (Inr (row # rows), db') \<longrightarrow>
        getDocumentByReference st pool reference db = (Inr (Some row), db'))
   \<and> (pool (lookup_statement st reference) db = (Inl e, db') \<longrightarrow>
        getDocumentByReference st pool reference db = (Inl e, db'))"
  by (simp add: lookup_statement_text lookup_statement_values getDocumentByReference_def)


theorem getDocumentByReference_absent_or_first_witness:
  "no_rows_pool (lookup_statement example_store (Num 7)) () = (Inr [], ())
   \<and> getDocumentByReference example_store no_rows_pool (Num 7) () = (Inr None, ())
   \<and> example_pool (lookup_statement example_store (Num 7)) [] =
       (Inr [[(''id'', Num 1)]], [[Num 7, Str ''test'']])
   \<and> getDocumentByReference example_store example_pool (Num 7) [] =
       (Inr (Some [(''id'', Num 1)]), [[Num 7, Str ''test'']])
   \<and> example_pool (lookup_statement example_store Null) [] =
       (Inl (ExecutorError ''null value violates not-null constraint''), [])
   \<and> getDocumentByReference example_store example_pool Null [] =
       (Inl (ExecutorError ''null value violates not-null constraint''), [])
   \<and> text_of (lookup_statement example_store (Num 7)) =
       ''SELECT * FROM '' @ [dq] @ ''documents'' @ [dq] @ '' WHERE '' @ [dq] @ ''id'' @ [dq]
       @ '' = $1 AND '' @ [dq] @ ''scope'' @ [dq] @ '' = $2''"
proof -
  have a: "no_rows_pool (lookup_statement example_store (Num 7)) () = (Inr [], ())"
    by (simp add: no_rows_pool_def)
  have v: "values_of (lookup_statement example_store r) = [r, Str ''test'']" for r
    by (simp add: lookup_statement_values example_store_def new_store_def nullish_def)
  have b: "example_pool (lookup_statement example_store (Num 7)) [] =
       (Inr [[(''id'', Num 1)]], [[Num 7, Str ''test'']])"
    by (simp add: example_pool_def v)
  have c: "example_pool (lookup_statement example_store Null) [] =
       (Inl (ExecutorError ''null value violates not-null constraint''), [])"
    by (simp add: example_pool_def v)
  note t = getDocumentByReference_absent_or_first
  have "getDocumentByReference example_store no_rows_pool (Num 7) () = (Inr None, ())"
    using t [of example_store "Num 7" no_rows_pool "()" "()"] a by simp
  moreover have "getDocumentByReference example_store example_pool (Num 7) [] =
       (Inr (Some [(''id'', Num 1)]), [[Num 7, Str ''test'']])"
    using t [of example_store "Num 7" example_pool "[]" "[[Num 7, Str ''test'']]"
        "[(''id'', Num 1)]" "[]"] b by simp
  moreover have "getDocumentByReference example_store example_pool Null [] =
       (Inl (ExecutorError ''null value violates not-null constraint''), [])"
    using t [of example_store Null example_pool "[]" "[]" _ _
        "ExecutorError ''null value violates not-null constraint''"] c by simp
  moreover have "text_of (lookup_statement example_store (Num 7)) =
       ''SELECT * FROM '' @ [dq] @ ''documents'' @ [dq] @ '' WHERE '' @ [dq] @ ''id'' @ [dq]
       @ '' = $1 AND '' @ [dq] @ ''scope'' @ [dq] @ '' = $2''"
    using t [of example_store "Num 7", THEN conjunct1]
    by (simp add: example_store_def new_store_def equality_clause_def createIdentifier_def
        show_nat.simps digit_chars_def dq_def enumerate_eq_zip upt_rec)
  ultimately show ?thesis using a b c by simp
qed

section \<open>Creating a document\<close>

lemma append_with_rows:
  "append_embeddings rt st (with_rows f pool) document embeddings db =
     append_embeddings rt st pool document embeddings db"
proof (induction embeddings arbitrary: db)
  case Nil
  show ?case by simp
next
  case (Cons e es)
  obtain r db1 where p: "pool (embedding_insert rt st document e) db = (r, db1)"
    by (cases "pool (embedding_insert rt st document e) db")
  show ?case
  proof (cases r)
    case (Inl err)
    have "with_rows f pool (embedding_insert rt st document e) db = (Inl err, db1)"
      unfolding with_rows_def p Inl by simp
    then show ?thesis using p Inl by simp
  next
    case (Inr rows)
    have "with_rows f pool (embedding_insert rt st document e) db = (Inr (f rows), db1)"
      unfolding with_rows_def p Inr by simp
    then show ?thesis using p Inr Cons.IH by simp
  qed
qed

text \<open>
  The row count of an insert. \<open>createDocument\<close> raises the assertion error when its
  insert answers with no row or with more than one, and returns the key of the row when
  it answers with one. The outcome of \<open>append\<close> is the same whatever rows the
  executor answers its inserts with.
\<close>

lemma createDocument_asserts_one_row:
  "(pool (createInsertQuery rt (documentTable st) document (documentScope st) None) db =
      (Inr rows, db') \<longrightarrow> length rows \<noteq> 1 \<longrightarrow>
    createDocument rt st pool document db =
      (Inl (AssertionError ''Expected one row to be returned''), db'))
   \<and> (pool (createInsertQuery rt (documentTable st) document (documentScope st) None) db =
      (Inr [row], db') \<longrightarrow>
    createDocument rt st pool document db = (Inr (obj_get row ''id''), db'))
   \<and> append_embeddings rt st (with_rows f pool) document' embeddings db =
       append_embeddings rt st pool document' embeddings db"
proof -
  have "createDocument rt st pool document db =
      (Inl (AssertionError ''Expected one row to be returned''), db')"
    if "pool (createInsertQuery rt (documentTable st) document (documentScope st) None) db =
      (Inr rows, db')" and "length rows \<noteq> 1"
  proof (cases rows)
    case Nil
    with that show ?thesis by (simp add: createDocument_def)
  next
    case (Cons x xs)
    with that obtain y ys where "xs = y # ys" by (cases xs) auto
    with Cons that show ?thesis by (simp add: createDocument_def)
  qed
  moreover have "createDocument rt st pool document db = (Inr (obj_get row ''id''), db')"
    if "pool (createInsertQuery rt (documentTable st) document (documentScope st) None) db =
      (Inr [row], db')"
    using that by (simp add: createDocument_def)
  ultimately show ?thesis by (simp add: append_with_rows)
qed


lemma values_createInsertQuery:
  "values_of (createInsertQuery rt table object scope mapFunction) =
     map (\<lambda>(k, v). bind_value rt v) (obj_spread (obj_spread [] scope) object)"
  by (simp add: createInsertQuery_render values_render insert_template_params)

lemmas object_eval = obj_spread_def obj_define_def array_index_def digit_value_def

lemma createDocument_asserts_one_row_witness:
  "no_rows_pool
     (createInsertQuery example_builtins (documentTable example_store)
        [(''name'', Str ''Test Document'')] (documentScope example_store) None) () = (Inr [], ())
   \<and> createDocument example_builtins example_store no_rows_pool
         [(''name'', Str ''Test Document'')] () =
       (Inl (AssertionError ''Expected one row to be returned''), ())
   \<and> example_pool
         (createInsertQuery example_builtins (documentTable example_store)
            [(''name'', Str ''Test Document'')] (documentScope example_store) None) [] =
       (Inr [[(''id'', Num 1)]], [[Str ''test'', Str ''Test Document'']])
   \<and> createDocument example_builtins example_store example_pool
         [(''name'', Str ''Test Document'')] [] =
       (Inr (Num 1), [[Str ''test'', Str ''Test Document'']])"
proof -
  have a: "no_rows_pool
     (createInsertQuery example_builtins (documentTable example_store)
        [(''name'', Str ''Test Document'')] (documentScope example_store) None) () = (Inr [], ())"
    by (simp add: no_rows_pool_def)
  have b: "example_pool
         (createInsertQuery example_builtins (documentTable example_store)
            [(''name'', Str ''Test Document'')] (documentScope example_store) None) [] =
       (Inr [[(''id'', Num 1)]], [[Str ''test'', Str ''Test Document'']])"
    by (simp add: example_pool_def values_createInsertQuery example_store_def new_store_def
        object_eval bind_value_def)
  note t = createDocument_asserts_one_row
  have "createDocument example_builtins example_store no_rows_pool
         [(''name'', Str ''Test Document'')] () =
       (Inl (AssertionError ''Expected one row to be returned''), ())"
    using t [of no_rows_pool example_builtins example_store "[(''name'', Str ''Test Document'')]"
        "()" "[]" "()", THEN conjunct1] a by simp
  moreover have "createDocument example_builtins example_store example_pool
         [(''name'', Str ''Test Document'')] [] =
       (Inr (Num 1), [[Str ''test'', Str ''Test Document'']])"
    using t [of example_pool example_builtins example_store "[(''name'', Str ''Test Document'')]"
        "[]" _ "[[Str ''test'', Str ''Test Document'']]" "[(''id'', Num 1)]",
        THEN conjunct2, THEN conjunct1] b
    by (simp add: obj_get_def)
  ultimately show ?thesis using a b by simp
qed

text \<open>
  Claim C6. Every insert executed through the facade, the one of \<open>createDocument\<close>
  and each insert of an embedding performed by \<open>append\<close>, is to surface a result of
  no row or of more than one row as an assertion failure. The code does not do so in
  \<open>append\<close>: an insert of an embedding that answers with no row, or with two rows,
  is not an assertion failure, and \<open>append\<close> completes normally. The statement is
  built by the same \<open>createInsertQuery\<close>, with the same returning clause, as the
  insert of \<open>createDocument\<close>, which asserts that one row came back.
\<close>

theorem append_ignores_row_count:
  "no_rows_pool
     (embedding_insert example_builtins example_store (Num 1)
        [(''text'', Str ''Hello''), (''vector'', Arr [Num 1, Num 2, Num 3])]) () = (Inr [], ())
   \<and> append_embeddings example_builtins example_store no_rows_pool (Num 1)
         [[(''text'', Str ''Hello''), (''vector'', Arr [Num 1, Num 2, Num 3])]] () = (Inr (), ())
   \<and> with_rows (\<lambda>rows. rows @ rows) example_pool
         (embedding_insert example_builtins example_store (Num 1)
            [(''text'', Str ''Hello''), (''vector'', Arr [Num 1, Num 2, Num 3])]) [] =
       (Inr [[(''id'', Num 1)], [(''id'', Num 1)]],
        [[Str ''test'', Str ''Hello'', Str ''[1,2,3]'', Num 1]])
   \<and> append_embeddings example_builtins example_store
         (with_rows (\<lambda>rows. rows @ rows) example_pool) (Num 1)
         [[(''text'', Str ''Hello''), (''vector'', Arr [Num 1, Num 2, Num 3])]] [] =
       (Inr (), [[Str ''test'', Str ''Hello'', Str ''[1,2,3]'', Num 1]])"
proof -
  have v: "values_of (embedding_insert example_builtins example_store (Num 1)
        [(''text'', Str ''Hello''), (''vector'', Arr [Num 1, Num 2, Num 3])]) =
      [Str ''test'', Str ''Hello'', Str ''[1,2,3]'', Num 1]"
    by (simp add: embedding_insert_def values_createInsertQuery example_store_def new_store_def
        object_eval bind_value_def array_join_def example_builtins_def show_nat.simps
        digit_chars_def)
  have p: "example_pool (embedding_insert example_builtins example_store (Num 1)
        [(''text'', Str ''Hello''), (''vector'', Arr [Num 1, Num 2, Num 3])]) [] =
      (Inr [[(''id'', Num 1)]], [[Str ''test'', Str ''Hello'', Str ''[1,2,3]'', Num 1]])"
    by (simp add: example_pool_def v)
  have w: "with_rows (\<lambda>rows. rows @ rows) example_pool
         (embedding_insert example_builtins example_store (Num 1)
            [(''text'', Str ''Hello''), (''vector'', Arr [Num 1, Num 2, Num 3])]) [] =
       (Inr [[(''id'', Num 1)], [(''id'', Num 1)]],
        [[Str ''test'', Str ''Hello'', Str ''[1,2,3]'', Num 1]])"
    by (simp add: with_rows_def p)
  show ?thesis
    by (simp add: w) (simp add: no_rows_pool_def)
qed

section \<open>Appending embeddings\<close>

lemma state_after_Nil: "state_after pool [] db = db"
  by (simp add: state_after_def)

lemma state_after_Cons: "state_after pool (q # qs) db = state_after pool qs (snd (pool q db))"
  by (simp add: state_after_def)

lemma recording_apply:
  "pool q db = (res, db1) \<Longrightarrow> recording pool q (db, seen) = (res, (db1, seen @ [q]))"
  by (simp add: recording_def)

lemma append_recording:
  "append_embeddings rt st (recording pool) document es (db, seen) = (r, (db', issued)) \<Longrightarrow>
   \<exists>new. issued = seen @ new
     \<and> new = map (embedding_insert rt st document) (take (length new) es)
     \<and> db' = state_after pool new db
     \<and> append_embeddings rt st pool document es db = (r, db')
     \<and> (r = Inr () \<longrightarrow> length new = length es)
     \<and> (\<forall>e. r = Inl e \<longrightarrow>
          (\<exists>k < length es. length new = Suc k
             \<and> fst (pool (new ! k) (state_after pool (take k new) db)) = Inl e))
     \<and> (\<forall>j. Suc j < length new \<longrightarrow>
          (\<exists>rows. fst (pool (new ! j) (state_after pool (take j new) db)) = Inr rows))"
proof (induction es arbitrary: db seen)
  case Nil
  then have "r = Inr ()" "db' = db" "issued = seen" by simp_all
  then show ?case by (simp add: state_after_Nil)
next
  case (Cons e es)
  define q where "q = embedding_insert rt st document e"
  obtain res db1 where p: "pool q db = (res, db1)" by (cases "pool q db")
  have rec: "recording pool q (db, seen) = (res, (db1, seen @ [q]))"
    using p by (rule recording_apply)
  show ?case
  proof (cases res)
    case (Inl err)
    from Cons.prems have "r = Inl err" "db' = db1" "issued = seen @ [q]"
      using rec Inl by (simp_all add: q_def [symmetric])
    moreover have "append_embeddings rt st pool document (e # es) db = (Inl err, db1)"
      using p Inl by (simp add: q_def [symmetric])
    ultimately show ?thesis
      using p Inl
      by (intro exI [of _ "[q]"]) (simp add: q_def [symmetric] state_after_Nil state_after_Cons)
  next
    case (Inr rows)
    from Cons.prems have run: "append_embeddings rt st (recording pool) document es
        (db1, seen @ [q]) = (r, (db', issued))"
      using rec Inr by (simp add: q_def [symmetric])
    from Cons.IH [OF run] obtain new where
      l: "issued = (seen @ [q]) @ new"
      and n: "new = map (embedding_insert rt st document) (take (length new) es)"
      and s: "db' = state_after pool new db1"
      and a: "append_embeddings rt st pool document es db1 = (r, db')"
      and ok: "r = Inr () \<longrightarrow> length new = length es"
      and bad: "\<forall>e. r = Inl e \<longrightarrow>
          (\<exists>k < length es. length new = Suc k
             \<and> fst (pool (new ! k) (state_after pool (take k new) db1)) = Inl e)"
      and before: "\<forall>j. Suc j < length new \<longrightarrow>
          (\<exists>rows. fst (pool (new ! j) (state_after pool (take j new) db1)) = Inr rows)"
      by blast
    have db1: "snd (pool q db) = db1" using p by simp
    have c1: "issued = seen @ (q # new)" using l by simp
    have c2: "q # new = map (embedding_insert rt st document) (take (length (q # new)) (e # es))"
      using n by (simp add: q_def)
    have c3: "db' = state_after pool (q # new) db" using s by (simp add: state_after_Cons db1)
    have c4: "append_embeddings rt st pool document (e # es) db = (r, db')"
      using a p Inr by (simp add: q_def [symmetric])
    have c5: "r = Inr () \<longrightarrow> length (q # new) = length (e # es)" using ok by simp
    have c6: "\<forall>err. r = Inl err \<longrightarrow>
          (\<exists>k < length (e # es). length (q # new) = Suc k
             \<and> fst (pool ((q # new) ! k) (state_after pool (take k (q # new)) db)) = Inl err)"
    proof (intro allI impI)
      fix err assume "r = Inl err"
      with bad obtain k where "k < length es" "length new = Suc k"
        "fst (pool (new ! k) (state_after pool (take k new) db1)) = Inl err" by blast
      then show "\<exists>k < length (e # es). length (q # new) = Suc k
             \<and> fst (pool ((q # new) ! k) (state_after pool (take k (q # new)) db)) = Inl err"
        by (intro exI [of _ "Suc k"]) (simp add: state_after_Cons db1)
    qed
    have c7: "\<forall>j. Suc j < length (q # new) \<longrightarrow>
          (\<exists>rows. fst (pool ((q # new) ! j) (state_after pool (take j (q # new)) db)) = Inr rows)"
    proof (intro allI impI)
      fix j assume j: "Suc j < length (q # new)"
      show "\<exists>rows. fst (pool ((q # new) ! j) (state_after pool (take j (q # new)) db)) = Inr rows"
      proof (cases j)
        case 0
        then show ?thesis using p Inr by (simp add: state_after_Nil)
      next
        case (Suc i)
        with j have "Suc i < length new" by simp
        with before obtain rows' where
          "fst (pool (new ! i) (state_after pool (take i new) db1)) = Inr rows'" by blast
        then show ?thesis using Suc by (simp add: state_after_Cons db1)
      qed
    qed
    show ?thesis
      by (rule exI [of _ "q # new"]) (intro conjI c1 c2 c3 c4 c5 c6 c7)
  qed
qed


text \<open>
  Claim C7. Let \<open>append\<close> run on a pool that records its statements, from an empty
  record. The statements issued are the inserts of a prefix of the embeddings, one per
  element and in the order of the input, and nothing else (no batch, no statement that
  opens or ends a transaction); each is executed on the state the one before it left,
  and that state is kept. When \<open>append\<close> completes, every embedding has its insert;
  when it fails, the statement of some element \<open>k\<close> failed with that error, the
  inserts of the \<open>k\<close> elements before it succeeded and their effect stays in the
  state. An empty input issues no statement and leaves the state as it was. Recording
  changes neither the outcome nor the state.
\<close>

theorem append_one_insert_per_embedding:
  assumes "append_embeddings rt st (recording pool) document embeddings (db, []) =
      (r, (db', issued))"
  shows "issued = map (embedding_insert rt st document) (take (length issued) embeddings)
     \<and> db' = state_after pool issued db
     \<and> append_embeddings rt st pool document embeddings db = (r, db')
     \<and> (r = Inr () \<longrightarrow> length issued = length embeddings)
     \<and> (\<forall>e. r = Inl e \<longrightarrow>
          (\<exists>k < length embeddings. length issued = Suc k
             \<and> fst (pool (issued ! k) (state_after pool (take k issued) db)) = Inl e))
     \<and> (\<forall>j. Suc j < length issued \<longrightarrow>
          (\<exists>rows. fst (pool (issued ! j) (state_after pool (take j issued) db)) = Inr rows))
     \<and> (embeddings = [] \<longrightarrow> issued = [] \<and> db' = db \<and> r = Inr ())"
proof -
  from append_recording [OF assms] obtain new where
    l: "issued = [] @ new"
    and rest: "new = map (embedding_insert rt st document) (take (length new) embeddings)"
      "db' = state_after pool new db"
      "append_embeddings rt st pool document embeddings db = (r, db')"
      "r = Inr () \<longrightarrow> length new = length embeddings"
      "\<forall>e. r = Inl e \<longrightarrow>
          (\<exists>k < length embeddings. length new = Suc k
             \<and> fst (pool (new ! k) (state_after pool (take k new) db)) = Inl e)"
      "\<forall>j. Suc j < length new \<longrightarrow>
          (\<exists>rows. fst (pool (new ! j) (state_after pool (take j new) db)) = Inr rows)"
    by blast
  have n: "new = issued" using l by simp
  have empty: "embeddings = [] \<longrightarrow> issued = [] \<and> db' = db \<and> r = Inr ()"
    using assms by auto
  show ?thesis
    using rest empty unfolding n by (intro conjI)
qed


lemmas insert_eval = embedding_insert_def values_createInsertQuery example_store_def
  new_store_def object_eval bind_value_def array_join_def example_builtins_def
  show_nat.simps digit_chars_def

theorem append_one_insert_per_embedding_witness:
  "append_embeddings example_builtins example_store (recording example_pool) (Num 1)
       [[(''text'', Str ''Hello''), (''vector'', Arr [Num 1, Num 2, Num 3])],
        [(''text'', Null), (''vector'', Arr [Num 4, Num 5, Num 6])],
        [(''text'', Str ''Foo''), (''vector'', Arr [Num 7, Num 8, Num 9])]] ([], []) =
     (Inl (ExecutorError ''null value violates not-null constraint''),
      ([[Str ''test'', Str ''Hello'', Str ''[1,2,3]'', Num 1]],
       [embedding_insert example_builtins example_store (Num 1)
            [(''text'', Str ''Hello''), (''vector'', Arr [Num 1, Num 2, Num 3])],
        embedding_insert example_builtins example_store (Num 1)
            [(''text'', Null), (''vector'', Arr [Num 4, Num 5, Num 6])]]))
   \<and> append_embeddings example_builtins example_store example_pool (Num 1)
       [[(''text'', Str ''Hello''), (''vector'', Arr [Num 1, Num 2, Num 3])],
        [(''text'', Null), (''vector'', Arr [Num 4, Num 5, Num 6])],
        [(''text'', Str ''Foo''), (''vector'', Arr [Num 7, Num 8, Num 9])]] [] =
     (Inl (ExecutorError ''null value violates not-null constraint''),
      [[Str ''test'', Str ''Hello'', Str ''[1,2,3]'', Num 1]])
   \<and> append_embeddings example_builtins example_store (recording example_pool) (Num 1)
       [[(''text'', Str ''Hello''), (''vector'', Arr [Num 1, Num 2, Num 3])],
        [(''text'', Str ''Foo''), (''vector'', Arr [Num 7, Num 8, Num 9])]] ([], []) =
     (Inr (),
      ([[Str ''test'', Str ''Hello'', Str ''[1,2,3]'', Num 1],
        [Str ''test'', Str ''Foo'', Str ''[7,8,9]'', Num 1]],
       [embedding_insert example_builtins example_store (Num 1)
            [(''text'', Str ''Hello''), (''vector'', Arr [Num 1, Num 2, Num 3])],
        embedding_insert example_builtins example_store (Num 1)
            [(''text'', Str ''Foo''), (''vector'', Arr [Num 7, Num 8, Num 9])]]))
   \<and> append_embeddings example_builtins example_store example_pool (Num 1)
       [[(''text'', Str ''Hello''), (''vector'', Arr [Num 1, Num 2, Num 3])],
        [(''text'', Str ''Foo''), (''vector'', Arr [Num 7, Num 8, Num 9])]] [] =
     (Inr (),
      [[Str ''test'', Str ''Hello'', Str ''[1,2,3]'', Num 1],
       [Str ''test'', Str ''Foo'', Str ''[7,8,9]'', Num 1]])"
proof -
  have v1: "values_of (embedding_insert example_builtins example_store (Num 1)
            [(''text'', Str ''Hello''), (''vector'', Arr [Num 1, Num 2, Num 3])]) =
      [Str ''test'', Str ''Hello'', Str ''[1,2,3]'', Num 1]"
    by (simp add: insert_eval)
  have v2: "values_of (embedding_insert example_builtins example_store (Num 1)
            [(''text'', Null), (''vector'', Arr [Num 4, Num 5, Num 6])]) =
      [Str ''test'', Null, Str ''[4,5,6]'', Num 1]"
    by (simp add: insert_eval)
  have v3: "values_of (embedding_insert example_builtins example_store (Num 1)
            [(''text'', Str ''Foo''), (''vector'', Arr [Num 7, Num 8, Num 9])]) =
      [Str ''test'', Str ''Foo'', Str ''[7,8,9]'', Num 1]"
    by (simp add: insert_eval)
  have h1: "append_embeddings example_builtins example_store (recording example_pool) (Num 1)
       [[(''text'', Str ''Hello''), (''vector'', Arr [Num 1, Num 2, Num 3])],
        [(''text'', Null), (''vector'', Arr [Num 4, Num 5, Num 6])],
        [(''text'', Str ''Foo''), (''vector'', Arr [Num 7, Num 8, Num 9])]] ([], []) =
     (Inl (ExecutorError ''null value violates not-null constraint''),
      ([[Str ''test'', Str ''Hello'', Str ''[1,2,3]'', Num 1]],
       [embedding_insert example_builtins example_store (Num 1)
            [(''text'', Str ''Hello''), (''vector'', Arr [Num 1, Num 2, Num 3])],
        embedding_insert example_builtins example_store (Num 1)
            [(''text'', Null), (''vector'', Arr [Num 4, Num 5, Num 6])]]))"
    by (simp add: recording_def example_pool_def v1 v2 v3)
  have h2: "append_embeddings example_builtins example_store (recording example_pool) (Num 1)
       [[(''text'', Str ''Hello''), (''vector'', Arr [Num 1, Num 2, Num 3])],
        [(''text'', Str ''Foo''), (''vector'', Arr [Num 7, Num 8, Num 9])]] ([], []) =
     (Inr (),
      ([[Str ''test'', Str ''Hello'', Str ''[1,2,3]'', Num 1],
        [Str ''test'', Str ''Foo'', Str ''[7,8,9]'', Num 1]],
       [embedding_insert example_builtins example_store (Num 1)
            [(''text'', Str ''Hello''), (''vector'', Arr [Num 1, Num 2, Num 3])],
        embedding_insert example_builtins example_store (Num 1)
            [(''text'', Str ''Foo''), (''vector'', Arr [Num 7, Num 8, Num 9])]]))"
    by (simp add: recording_def example_pool_def v1 v2 v3)
  have "append_embeddings example_builtins example_store example_pool (Num 1)
       [[(''text'', Str ''Hello''), (''vector'', Arr [Num 1, Num 2, Num 3])],
        [(''text'', Null), (''vector'', Arr [Num 4, Num 5, Num 6])],
        [(''text'', Str ''Foo''), (''vector'', Arr [Num 7, Num 8, Num 9])]] [] =
     (Inl (ExecutorError ''null value violates not-null constraint''),
      [[Str ''test'', Str ''Hello'', Str ''[1,2,3]'', Num 1]])"
    using append_one_insert_per_embedding [OF h1] by simp
  moreover have "append_embeddings example_builtins example_store example_pool (Num 1)
       [[(''text'', Str ''Hello''), (''vector'', Arr [Num 1, Num 2, Num 3])],
        [(''text'', Str ''Foo''), (''vector'', Arr [Num 7, Num 8, Num 9])]] [] =
     (Inr (),
      [[Str ''test'', Str ''Hello'', Str ''[1,2,3]'', Num 1],
       [Str ''test'', Str ''Foo'', Str ''[7,8,9]'', Num 1]])"
    using append_one_insert_per_embedding [OF h2] by simp
  ultimately show ?thesis using h1 h2 by simp
qed

section \<open>The operator of the query\<close>

lemma operator_lookup_supported:
  "operator_lookup ''l2'' = OwnValue ''<->''"
  "operator_lookup ''l1'' = OwnValue ''<+>''"
  "operator_lookup ''negative_inner_product'' = OwnValue ''<#>''"
  "operator_lookup ''cosine'' = OwnValue ''<=>''"
  by (simp_all add: operator_lookup_def operators_def)

lemma query_supported:
  assumes "map_of operators (algorithm st) = Some operator"
  shows "query rt st pool vector documents limit offset db =
     (case pool (query_statement rt st operator vector documents
                   (default_param limit (Num 10)) (default_param offset (Num 0))) db of
        (Inl e, db') \<Rightarrow> (Inl e, db')
      | (Inr rows, db') \<Rightarrow> (map_rows rt rows, db'))"
proof -
  have l: "operator_lookup (algorithm st) = OwnValue operator"
    using assms by (simp add: operator_lookup_def)
  have "operator \<noteq> []"
    using assms by (auto simp: operators_def split: if_splits)
  then show ?thesis by (simp add: query_def l)
qed

lemma query_unsupported:
  assumes "map_of operators (algorithm st) = None"
    and "algorithm st \<notin> set object_prototype_keys"
  shows "query rt st (recording pool) vector documents limit offset (db, []) =
     (Inl (AssertionError (''Unsupported distance algorithm: '' @ algorithm st)), (db, []))"
  using assms by (simp add: query_def operator_lookup_def)

lemma map_of_operators_None:
  "map_of operators a = None \<longleftrightarrow>
     a \<notin> {''l2'', ''l1'', ''negative_inner_product'', ''cosine''}"
  by (simp add: operators_def)

lemma query_recording_supported:
  assumes "map_of operators (algorithm st) = Some operator"
  shows "snd (snd (query rt st (recording pool) vector documents limit offset (db, []))) =
     [query_statement rt st operator vector documents
        (default_param limit (Num 10)) (default_param offset (Num 0))]"
proof -
  obtain r db' where p: "pool (query_statement rt st operator vector documents
        (default_param limit (Num 10)) (default_param offset (Num 0))) db = (r, db')"
    by (cases "pool (query_statement rt st operator vector documents
        (default_param limit (Num 10)) (default_param offset (Num 0))) db")
  show ?thesis
    unfolding query_supported [OF assms]
    by (cases r) (simp_all add: recording_def p)
qed

text \<open>
  What \<open>query\<close> does with the algorithm it is configured with. The four supported
  algorithms have the documented operators, and \<open>query\<close> with a supported algorithm
  issues one statement, built with the operator of that algorithm. With an algorithm that
  is neither one of the four nor the name of a member the object literal inherits,
  \<open>query\<close> raises the assertion error that names the algorithm and issues no
  statement: the record of the pool stays empty and its state is unchanged.
\<close>

lemma query_operator_or_configuration_error:
  "map_of operators ''l2'' = Some ''<->''
   \<and> map_of operators ''l1'' = Some ''<+>''
   \<and> map_of operators ''negative_inner_product'' = Some ''<#>''
   \<and> map_of operators ''cosine'' = Some ''<=>''
   \<and> (map_of operators (algorithm st) = Some operator \<longrightarrow>
        snd (snd (query rt st (recording pool) vector documents limit offset (db, []))) =
          [query_statement rt st operator vector documents
             (default_param limit (Num 10)) (default_param offset (Num 0))])
   \<and> (algorithm st \<notin> {''l2'', ''l1'', ''negative_inner_product'', ''cosine''} \<longrightarrow>
        algorithm st \<notin> set object_prototype_keys \<longrightarrow>
        query rt st (recording pool) vector documents limit offset (db, []) =
          (Inl (AssertionError (''Unsupported distance algorithm: '' @ algorithm st)), (db, [])))"
proof -
  have "map_of operators ''l2'' = Some ''<->''" "map_of operators ''l1'' = Some ''<+>''"
    "map_of operators ''negative_inner_product'' = Some ''<#>''"
    "map_of operators ''cosine'' = Some ''<=>''"
    by (simp_all add: operators_def)
  moreover have "map_of operators (algorithm st) = Some operator \<longrightarrow>
        snd (snd (query rt st (recording pool) vector documents limit offset (db, []))) =
          [query_statement rt st operator vector documents
             (default_param limit (Num 10)) (default_param offset (Num 0))]"
    by (rule impI) (rule query_recording_supported)
  moreover have "algorithm st \<notin> {''l2'', ''l1'', ''negative_inner_product'', ''cosine''} \<longrightarrow>
        algorithm st \<notin> set object_prototype_keys \<longrightarrow>
        query rt st (recording pool) vector documents limit offset (db, []) =
          (Inl (AssertionError (''Unsupported distance algorithm: '' @ algorithm st)), (db, []))"
  proof (intro impI)
    assume a: "algorithm st \<notin> {''l2'', ''l1'', ''negative_inner_product'', ''cosine''}"
      and k: "algorithm st \<notin> set object_prototype_keys"
    from a have "map_of operators (algorithm st) = None"
      by (rule map_of_operators_None [THEN iffD2])
    then show "query rt st (recording pool) vector documents limit offset (db, []) =
          (Inl (AssertionError (''Unsupported distance algorithm: '' @ algorithm st)), (db, []))"
      using k by (rule query_unsupported)
  qed
  ultimately show ?thesis by (intro conjI)
qed

lemma query_operator_or_configuration_error_witness:
  "map_of operators (algorithm example_store) = Some ''<=>''
   \<and> snd (snd (query example_builtins example_store (recording no_rows_pool) [1, 2, 3] None
         Undefined Undefined ((), []))) =
       [query_statement example_builtins example_store ''<=>'' [1, 2, 3] None (Num 10) (Num 0)]
   \<and> text_of (query_statement example_builtins example_store ''<=>'' [1, 2, 3] None
         (Num 10) (Num 0)) =
       ''SELECT '' @ [dq] @ ''document'' @ [dq] @ '' AS document, '' @ [dq] @ ''text'' @ [dq]
       @ '' AS text, '' @ [dq] @ ''vector'' @ [dq] @ '' AS vector, '' @ [dq] @ ''vector'' @ [dq]
       @ '' <=> $1 AS distance FROM '' @ [dq] @ ''embeddings'' @ [dq] @ '' WHERE '' @ [dq]
       @ ''scope'' @ [dq] @ '' = $2 ORDER BY distance ASC LIMIT $3 OFFSET $4''
   \<and> algorithm (example_store\<lparr>algorithm := ''euclidean''\<rparr>) \<notin>
       {''l2'', ''l1'', ''negative_inner_product'', ''cosine''}
   \<and> algorithm (example_store\<lparr>algorithm := ''euclidean''\<rparr>) \<notin> set object_prototype_keys
   \<and> query example_builtins (example_store\<lparr>algorithm := ''euclidean''\<rparr>)
         (recording no_rows_pool) [1, 2, 3] None Undefined Undefined ((), []) =
       (Inl (AssertionError ''Unsupported distance algorithm: euclidean''), ((), []))"
proof -
  have a: "map_of operators (algorithm example_store) = Some ''<=>''"
    by (simp add: operators_def example_store_def new_store_def)
  have b: "algorithm (example_store\<lparr>algorithm := ''euclidean''\<rparr>) \<notin>
       {''l2'', ''l1'', ''negative_inner_product'', ''cosine''}"
    by simp
  have c: "algorithm (example_store\<lparr>algorithm := ''euclidean''\<rparr>) \<notin> set object_prototype_keys"
    by (simp add: object_prototype_keys_def)
  note t = query_operator_or_configuration_error
  have d: "snd (snd (query example_builtins example_store (recording no_rows_pool) [1, 2, 3] None
         Undefined Undefined ((), []))) =
       [query_statement example_builtins example_store ''<=>'' [1, 2, 3] None (Num 10) (Num 0)]"
    using t [where st = example_store and operator = "''<=>''" and rt = example_builtins
        and pool = no_rows_pool and vector = "[1, 2, 3]" and documents = None
        and limit = Undefined and offset = Undefined and db = "()"] a
    by (simp add: default_param_def)
  have e: "query example_builtins (example_store\<lparr>algorithm := ''euclidean''\<rparr>)
         (recording no_rows_pool) [1, 2, 3] None Undefined Undefined ((), []) =
       (Inl (AssertionError ''Unsupported distance algorithm: euclidean''), ((), []))"
    using t [where st = "example_store\<lparr>algorithm := ''euclidean''\<rparr>"
        and rt = example_builtins and pool = no_rows_pool and vector = "[1, 2, 3]"
        and documents = None and limit = Undefined and offset = Undefined and db = "()"] b c
    by simp
  have f: "text_of (query_statement example_builtins example_store ''<=>'' [1, 2, 3] None
         (Num 10) (Num 0)) =
       ''SELECT '' @ [dq] @ ''document'' @ [dq] @ '' AS document, '' @ [dq] @ ''text'' @ [dq]
       @ '' AS text, '' @ [dq] @ ''vector'' @ [dq] @ '' AS vector, '' @ [dq] @ ''vector'' @ [dq]
       @ '' <=> $1 AS distance FROM '' @ [dq] @ ''embeddings'' @ [dq] @ '' WHERE '' @ [dq]
       @ ''scope'' @ [dq] @ '' = $2 ORDER BY distance ASC LIMIT $3 OFFSET $4''"
    by (simp add: query_statement_render text_render query_template_def filter_templates_def
        example_store_def new_store_def scope_template_def createIdentifier_def dq_def
        show_nat.simps digit_chars_def)
  from a b c d e f show ?thesis by (intro conjI)
qed

text \<open>
  Claim C3. For every algorithm value other than the four supported ones \<open>query\<close>
  is to raise a configuration error before it issues any statement. The code does not
  do so at the algorithm \<open>constructor\<close>, a value outside the four: the read of the
  operator finds the member the object literal inherits under that name, the assertion
  passes, and the statement goes to the executor with the printed function where the
  operator should be. The guard that is there to reject an unsupported algorithm lets
  this one through.
\<close>

theorem query_inherited_algorithm_issues_statement:
  "query example_builtins (example_store\<lparr>algorithm := ''constructor''\<rparr>)
     (recording no_rows_pool) [1, 2, 3] None Undefined Undefined ((), []) =
     (Inr [],
      ((), [query_statement example_builtins (example_store\<lparr>algorithm := ''constructor''\<rparr>)
              ''function Object() { [native code] }'' [1, 2, 3] None (Num 10) (Num 0)]))
   \<and> text_of (query_statement example_builtins (example_store\<lparr>algorithm := ''constructor''\<rparr>)
              ''function Object() { [native code] }'' [1, 2, 3] None (Num 10) (Num 0)) =
       ''SELECT '' @ [dq] @ ''document'' @ [dq] @ '' AS document, '' @ [dq] @ ''text'' @ [dq]
       @ '' AS text, '' @ [dq] @ ''vector'' @ [dq] @ '' AS vector, '' @ [dq] @ ''vector'' @ [dq]
       @ '' function Object() { [native code] } $1 AS distance FROM '' @ [dq] @ ''embeddings''
       @ [dq] @ '' WHERE '' @ [dq] @ ''scope'' @ [dq]
       @ '' = $2 ORDER BY distance ASC LIMIT $3 OFFSET $4''"
proof -
  have "query example_builtins (example_store\<lparr>algorithm := ''constructor''\<rparr>)
     (recording no_rows_pool) [1, 2, 3] None Undefined Undefined ((), []) =
     (Inr [],
      ((), [query_statement example_builtins (example_store\<lparr>algorithm := ''constructor''\<rparr>)
              ''function Object() { [native code] }'' [1, 2, 3] None (Num 10) (Num 0)]))"
    by (simp add: query_def operator_lookup_def operators_def object_prototype_keys_def
        recording_def no_rows_pool_def default_param_def)
  moreover have "text_of (query_statement example_builtins
              (example_store\<lparr>algorithm := ''constructor''\<rparr>)
              ''function Object() { [native code] }'' [1, 2, 3] None (Num 10) (Num 0)) =
       ''SELECT '' @ [dq] @ ''document'' @ [dq] @ '' AS document, '' @ [dq] @ ''text'' @ [dq]
       @ '' AS text, '' @ [dq] @ ''vector'' @ [dq] @ '' AS vector, '' @ [dq] @ ''vector'' @ [dq]
       @ '' function Object() { [native code] } $1 AS distance FROM '' @ [dq] @ ''embeddings''
       @ [dq] @ '' WHERE '' @ [dq] @ ''scope'' @ [dq]
       @ '' = $2 ORDER BY distance ASC LIMIT $3 OFFSET $4''"
    by (simp add: query_statement_render text_render query_template_def filter_templates_def
        example_store_def new_store_def scope_template_def createIdentifier_def dq_def
        show_nat.simps digit_chars_def)
  ultimately show ?thesis by simp
qed

section \<open>The results of the query\<close>

lemma render_onto_page:
  "render_onto st [Lit t, Param a, Lit u, Param b] =
     (case st of SQLStatement qs l \<Rightarrow> SQLStatement (qs @ [(l @ t, a), (u, b)]) [])"
proof (cases st)
  case (SQLStatement qs l)
  then show ?thesis
    by (simp add: render_onto_Cons render_onto_Nil SQL_value_def)
qed

lemma ends_with_append: "ends_with t (l @ t)"
  by (simp add: ends_with_def)

lemma page_request_query:
  "page_request (query_statement rt st operator vector documents limit offset) =
     Some (limit, offset)"
proof -
  define front where "front =
     [Lit ''SELECT '', Ident (mapEmbeddingColumn st ''document''), Lit '' AS document, '',
      Ident (mapEmbeddingColumn st ''text''), Lit '' AS text, '',
      Ident (mapEmbeddingColumn st ''vector''), Lit '' AS vector, '',
      Ident (mapEmbeddingColumn st ''vector''), Lit ('' '' @ operator @ '' ''),
      Param (Str (''['' @ array_join rt '','' (map Num vector) @ '']'')),
      Lit '' AS distance FROM '', Ident (embeddingTable st)] @
     (if filter_templates st documents = [] then []
      else Lit '' WHERE '' # separated [Lit '' AND ''] (filter_templates st documents))"
  have t: "query_template rt st operator vector documents limit offset =
      front @
      [Lit '' ORDER BY distance ASC LIMIT '', Param limit, Lit '' OFFSET '', Param offset]"
    by (simp add: query_template_def front_def)
  have q: "query_statement rt st operator vector documents limit offset =
      render_onto (render front)
        [Lit '' ORDER BY distance ASC LIMIT '', Param limit, Lit '' OFFSET '', Param offset]"
    unfolding query_statement_render t by (simp add: render_def render_onto_append)
  obtain qs l where f: "render front = SQLStatement qs l" by (cases "render front")
  show ?thesis
    unfolding q render_onto_page f
    by (simp add: page_request_def ends_with_append)
qed

lemma row_count_nat: "row_count (Num (real n)) = Some n"
  by (simp add: row_count_def)

lemma map_rows_hits:
  assumes "\<forall>h \<in> set page. JSON_parse rt (hit_vector h) \<noteq> None"
  shows "\<exists>results. map_rows rt (map hit_row page) = Inr results
     \<and> length results = length page
     \<and> map result_distance results = map (\<lambda>h. Num (hit_distance h)) page"
  using assms
proof (induction page)
  case Nil
  show ?case by simp
next
  case (Cons h page)
  then obtain results where r: "map_rows rt (map hit_row page) = Inr results"
    "length results = length page"
    "map result_distance results = map (\<lambda>h. Num (hit_distance h)) page"
    by auto
  from Cons.prems obtain v where v: "JSON_parse rt (hit_vector h) = Some v" by auto
  have "map_rows rt (map hit_row (h # page)) =
      Inr (\<lparr> result_text = hit_text h, result_vector = v,
             result_distance = Num (hit_distance h), result_document = hit_document h \<rparr>
           # results)"
    using r(1) v by (simp add: hit_row_def obj_get_def)
  then show ?case using r(2,3) by simp
qed

text \<open>
  Claim C4. The statement of \<open>query\<close> ends with the ordering by distance and the
  pagination, the limit and the offset bound as its last two values. On the engine that
  orders and paginates such a statement, with a supported algorithm and rows whose
  vectors \<open>JSON.parse\<close> accepts, \<open>query\<close> with the limit \<open>count\<close> and the offset
  \<open>skip\<close> returns at most \<open>count\<close> results; their distances are those of the
  rows taken after the ordering, \<open>skip\<close> rows dropped, and they are sorted in
  non-decreasing order.
\<close>

theorem query_sorted_page:
  assumes "map_of operators (algorithm st) = Some operator"
    and "\<forall>h \<in> set hits. JSON_parse rt (hit_vector h) \<noteq> None"
  shows "page_request (query_statement rt st operator vector documents (Num (real count))
            (Num (real skip))) = Some (Num (real count), Num (real skip))
     \<and> (\<exists>results ds.
          query rt st (ordering_engine hits) vector documents (Num (real count)) (Num (real skip)) db =
            (Inr results, db)
          \<and> length results \<le> count
          \<and> map result_distance results = map Num ds
          \<and> sorted ds
          \<and> ds = map hit_distance (take count (drop skip (sort_key hit_distance hits))))"
proof -
  define page where "page = take count (drop skip (sort_key hit_distance hits))"
  have sub: "set page \<subseteq> set hits"
    unfolding page_def using set_take_subset set_drop_subset set_sort by fast
  then have parse: "\<forall>h \<in> set page. JSON_parse rt (hit_vector h) \<noteq> None"
    using assms(2) by blast
  from map_rows_hits [OF parse] obtain results where r:
    "map_rows rt (map hit_row page) = Inr results" "length results = length page"
    "map result_distance results = map (\<lambda>h. Num (hit_distance h)) page"
    by blast
  have e: "ordering_engine hits
      (query_statement rt st operator vector documents (Num (real count)) (Num (real skip))) db =
      (Inr (map hit_row page), db)"
    by (simp add: ordering_engine_def page_request_query row_count_nat page_def)
  have q: "query rt st (ordering_engine hits) vector documents (Num (real count)) (Num (real skip)) db =
      (Inr results, db)"
    unfolding query_supported [OF assms(1)] by (simp add: default_param_def e r)
  have len: "length results \<le> count" using r(2) by (simp add: page_def)
  have d: "map result_distance results = map Num (map hit_distance page)"
    using r(3) by simp
  have "sorted (map hit_distance (sort_key hit_distance hits))" by simp
  then have s: "sorted (map hit_distance page)"
    unfolding page_def take_map [symmetric] drop_map [symmetric] by simp
  show ?thesis
    using q len d s by (auto simp: page_request_query page_def)
qed


theorem query_sorted_page_witness:
  "map_of operators (algorithm example_store) = Some ''<=>''
   \<and> list_all (\<lambda>h. JSON_parse example_builtins (hit_vector h) \<noteq> None)
       [\<lparr>hit_document = Num 1, hit_text = Str ''World'', hit_vector = Str ''[4,5,6]'',
          hit_distance = 5\<rparr>,
        \<lparr>hit_document = Num 1, hit_text = Str ''Hello'', hit_vector = Str ''[1,2,3]'',
          hit_distance = 1\<rparr>,
        \<lparr>hit_document = Num 1, hit_text = Str ''Foo'', hit_vector = Str ''[7,8,9]'',
          hit_distance = 3\<rparr>]
   \<and> (\<exists>results.
        query example_builtins example_store
          (ordering_engine
             [\<lparr>hit_document = Num 1, hit_text = Str ''World'', hit_vector = Str ''[4,5,6]'',
          hit_distance = 5\<rparr>,
        \<lparr>hit_document = Num 1, hit_text = Str ''Hello'', hit_vector = Str ''[1,2,3]'',
          hit_distance = 1\<rparr>,
        \<lparr>hit_document = Num 1, hit_text = Str ''Foo'', hit_vector = Str ''[7,8,9]'',
          hit_distance = 3\<rparr>])
          [1, 2, 3] None (Num 2) (Num 0) () = (Inr results, ())
        \<and> length results \<le> 2
        \<and> map result_distance results = [Num 1, Num 3])"
proof -
  have a: "map_of operators (algorithm example_store) = Some ''<=>''"
    by (simp add: operators_def example_store_def new_store_def)
  have b: "\<forall>h \<in> set
       [\<lparr>hit_document = Num 1, hit_text = Str ''World'', hit_vector = Str ''[4,5,6]'',
          hit_distance = 5\<rparr>,
        \<lparr>hit_document = Num 1, hit_text = Str ''Hello'', hit_vector = Str ''[1,2,3]'',
          hit_distance = 1\<rparr>,
        \<lparr>hit_document = Num 1, hit_text = Str ''Foo'', hit_vector = Str ''[7,8,9]'',
          hit_distance = 3\<rparr>].
       JSON_parse example_builtins (hit_vector h) \<noteq> None"
    by (simp add: example_builtins_def)
  have c: "list_all (\<lambda>h. JSON_parse example_builtins (hit_vector h) \<noteq> None)
       [\<lparr>hit_document = Num 1, hit_text = Str ''World'', hit_vector = Str ''[4,5,6]'',
          hit_distance = 5\<rparr>,
        \<lparr>hit_document = Num 1, hit_text = Str ''Hello'', hit_vector = Str ''[1,2,3]'',
          hit_distance = 1\<rparr>,
        \<lparr>hit_document = Num 1, hit_text = Str ''Foo'', hit_vector = Str ''[7,8,9]'',
          hit_distance = 3\<rparr>]"
    by (simp add: example_builtins_def)
  from query_sorted_page [OF a b, where vector = "[1, 2, 3]" and documents = None
      and count = 2 and skip = 0 and db = "()"]
  have "\<exists>results.
        query example_builtins example_store
          (ordering_engine
             [\<lparr>hit_document = Num 1, hit_text = Str ''World'', hit_vector = Str ''[4,5,6]'',
          hit_distance = 5\<rparr>,
        \<lparr>hit_document = Num 1, hit_text = Str ''Hello'', hit_vector = Str ''[1,2,3]'',
          hit_distance = 1\<rparr>,
        \<lparr>hit_document = Num 1, hit_text = Str ''Foo'', hit_vector = Str ''[7,8,9]'',
          hit_distance = 3\<rparr>])
          [1, 2, 3] None (Num 2) (Num 0) () = (Inr results, ())
        \<and> length results \<le> 2
        \<and> map result_distance results = [Num 1, Num 3]"
    by (auto simp: sort_key_def)
  with a c show ?thesis by simp
qed

section \<open>The sequences of results\<close>

lemma map_rows_all:
  assumes "list_all (\<lambda>row. JSON_parse rt (obj_get row ''vector'') \<noteq> None) rows"
  shows "\<exists>results. map_rows rt rows = Inr results
     \<and> map Some results =
         map (\<lambda>row. map_option (row_result row) (JSON_parse rt (obj_get row ''vector''))) rows"
  using assms
proof (induction rows)
  case Nil
  show ?case by simp
next
  case (Cons row rows)
  then obtain results where r: "map_rows rt rows = Inr results"
    "map Some results =
       map (\<lambda>row. map_option (row_result row) (JSON_parse rt (obj_get row ''vector''))) rows"
    by auto
  from Cons.prems obtain v where v: "JSON_parse rt (obj_get row ''vector'') = Some v" by auto
  have "map_rows rt (row # rows) = Inr (row_result row v # results)"
    using r(1) v by (simp add: row_result_def)
  then show ?case using r(2) v by simp
qed

lemma map_rows_some_fails:
  assumes "\<not> list_all (\<lambda>row. JSON_parse rt (obj_get row ''vector'') \<noteq> None) rows"
  shows "map_rows rt rows = Inl JSONSyntaxError"
  using assms
proof (induction rows)
  case Nil
  then show ?case by simp
next
  case (Cons row rows)
  show ?case
  proof (cases "JSON_parse rt (obj_get row ''vector'')")
    case None
    then show ?thesis by simp
  next
    case (Some v)
    with Cons.prems have "\<not> list_all (\<lambda>row. JSON_parse rt (obj_get row ''vector'') \<noteq> None) rows"
      by simp
    from Cons.IH [OF this] Some show ?thesis by simp
  qed
qed

text \<open>
  Claim C9, as amended. \<open>getDocuments\<close> and \<open>query\<close> make their sequence from the
  complete array of rows the one call of the executor resolves with. \<open>getDocuments\<close>
  delivers those rows. \<open>query\<close> decodes every row before it delivers the first
  result: when \<open>JSON.parse\<close> accepts the vector of every row, the results are those of
  the rows, one per row and in their order; when it rejects the vector of any row, the
  sequence fails and delivers nothing.
\<close>

theorem sequences_of_resolved_rows:
  assumes "map_of operators (algorithm st) = Some operator"
    and "pool (query_statement rt st operator vector documents
                 (default_param limit (Num 10)) (default_param offset (Num 0))) db =
         (Inr rows, db')"
  shows "(\<forall>documentRows db''. pool (documents_statement st) db = (Inr documentRows, db'') \<longrightarrow>
          getDocuments st pool db = (Inr documentRows, db'')
          \<and> delivered (fst (getDocuments st pool db)) = documentRows)
     \<and> (list_all (\<lambda>row. JSON_parse rt (obj_get row ''vector'') \<noteq> None) rows \<longrightarrow>
          (\<exists>results.
             query rt st pool vector documents limit offset db = (Inr results, db')
             \<and> map Some results =
                 map (\<lambda>row. map_option (row_result row)
                                (JSON_parse rt (obj_get row ''vector''))) rows))
     \<and> (\<not> list_all (\<lambda>row. JSON_parse rt (obj_get row ''vector'') \<noteq> None) rows \<longrightarrow>
          query rt st pool vector documents limit offset db = (Inl JSONSyntaxError, db')
          \<and> delivered (fst (query rt st pool vector documents limit offset db)) = [])"
proof -
  have q: "query rt st pool vector documents limit offset db = (map_rows rt rows, db')"
    unfolding query_supported [OF assms(1)] assms(2) by simp
  show ?thesis
    unfolding q using map_rows_all [of rt rows] map_rows_some_fails [of rt rows]
    by (auto simp: getDocuments_def)
qed


lemmas query_eval = query_def operator_lookup_def operators_def example_store_def
  new_store_def rows_pool_def example_builtins_def obj_get_def row_result_def

text \<open>
  The claim as stated fails for \<open>query\<close>. A sequence that pulled the rows one at a
  time would deliver the result of the first row before it read the second. Here two
  answers of the executor agree on their first row, and the consumer receives the result
  of that row from the one and nothing from the other, whose second row does not decode.
\<close>

theorem query_decodes_all_rows_first_counterexample:
  "take 1
     [[(''document'', Num 1), (''text'', Str ''Hello''), (''vector'', Str ''[1,2,3]''),
          (''distance'', Num 0)]] =
   take 1
     [[(''document'', Num 1), (''text'', Str ''Hello''), (''vector'', Str ''[1,2,3]''),
          (''distance'', Num 0)],
        [(''document'', Num 1), (''text'', Str ''World''), (''vector'', Str ''oops''),
          (''distance'', Num 1)]]
   \<and> delivered (fst (query example_builtins example_store
            (rows_pool
               [[(''document'', Num 1), (''text'', Str ''Hello''), (''vector'', Str ''[1,2,3]''),
          (''distance'', Num 0)]])
            [1, 2, 3] None Undefined Undefined ())) =
       [row_result
          [(''document'', Num 1), (''text'', Str ''Hello''), (''vector'', Str ''[1,2,3]''),
          (''distance'', Num 0)]
          (Arr [Num 1, Num 2, Num 3])]
   \<and> delivered (fst (query example_builtins example_store
            (rows_pool
               [[(''document'', Num 1), (''text'', Str ''Hello''), (''vector'', Str ''[1,2,3]''),
          (''distance'', Num 0)],
        [(''document'', Num 1), (''text'', Str ''World''), (''vector'', Str ''oops''),
          (''distance'', Num 1)]])
            [1, 2, 3] None Undefined Undefined ())) = []"
  by (simp add: query_eval)

theorem sequences_of_resolved_rows_witness:
  "map_of operators (algorithm example_store) = Some ''<=>''
   \<and> query example_builtins example_store
            (rows_pool
               [[(''document'', Num 1), (''text'', Str ''Hello''), (''vector'', Str ''[1,2,3]''),
          (''distance'', Num 0)],
        [(''document'', Num 1), (''text'', Str ''World''), (''vector'', Str ''[4,5,6]''),
          (''distance'', Num 1)]])
            [1, 2, 3] None Undefined Undefined () =
       (Inr [row_result
          [(''document'', Num 1), (''text'', Str ''Hello''), (''vector'', Str ''[1,2,3]''),
          (''distance'', Num 0)]
          (Arr [Num 1, Num 2, Num 3]),
             row_result
          [(''document'', Num 1), (''text'', Str ''World''), (''vector'', Str ''[4,5,6]''),
          (''distance'', Num 1)]
          (Arr [Num 4, Num 5, Num 6])], ())
   \<and> query example_builtins example_store
            (rows_pool
               [[(''document'', Num 1), (''text'', Str ''Hello''), (''vector'', Str ''[1,2,3]''),
          (''distance'', Num 0)],
        [(''document'', Num 1), (''text'', Str ''World''), (''vector'', Str ''oops''),
          (''distance'', Num 1)]])
            [1, 2, 3] None Undefined Undefined () = (Inl JSONSyntaxError, ())
   \<and> getDocuments example_store (rows_pool [[(''id'', Num 1), (''name'', Str ''Example Doc'')]]) () =
       (Inr [[(''id'', Num 1), (''name'', Str ''Example Doc'')]], ())"
proof -
  have a: "map_of operators (algorithm example_store) = Some ''<=>''"
    by (simp add: operators_def example_store_def new_store_def)
  have b: "rows_pool rows
      (query_statement example_builtins example_store ''<=>'' [1, 2, 3] None
         (default_param Undefined (Num 10)) (default_param Undefined (Num 0))) () =
      (Inr rows, ())" for rows
    by (simp add: rows_pool_def)
  note t1 = sequences_of_resolved_rows [where st = example_store and rt = example_builtins
      and operator = "''<=>''" and vector = "[1, 2, 3]" and documents = None
      and limit = Undefined and offset = Undefined and db = "()" and db' = "()"
      and pool = "rows_pool
        [[(''document'', Num 1), (''text'', Str ''Hello''), (''vector'', Str ''[1,2,3]''),
          (''distance'', Num 0)],
        [(''document'', Num 1), (''text'', Str ''World''), (''vector'', Str ''[4,5,6]''),
          (''distance'', Num 1)]]"
      and rows = "[[(''document'', Num 1), (''text'', Str ''Hello''), (''vector'', Str ''[1,2,3]''),
          (''distance'', Num 0)],
        [(''document'', Num 1), (''text'', Str ''World''), (''vector'', Str ''[4,5,6]''),
          (''distance'', Num 1)]]", OF a b]
  note t2 = sequences_of_resolved_rows [where st = example_store and rt = example_builtins
      and operator = "''<=>''" and vector = "[1, 2, 3]" and documents = None
      and limit = Undefined and offset = Undefined and db = "()" and db' = "()"
      and pool = "rows_pool
        [[(''document'', Num 1), (''text'', Str ''Hello''), (''vector'', Str ''[1,2,3]''),
          (''distance'', Num 0)],
        [(''document'', Num 1), (''text'', Str ''World''), (''vector'', Str ''oops''),
          (''distance'', Num 1)]]"
      and rows = "[[(''document'', Num 1), (''text'', Str ''Hello''), (''vector'', Str ''[1,2,3]''),
          (''distance'', Num 0)],
        [(''document'', Num 1), (''text'', Str ''World''), (''vector'', Str ''oops''),
          (''distance'', Num 1)]]", OF a b]
  note t3 = sequences_of_resolved_rows [where st = example_store and rt = example_builtins
      and operator = "''<=>''" and vector = "[1, 2, 3]" and documents = None
      and limit = Undefined and offset = Undefined and db = "()" and db' = "()"
      and pool = "rows_pool
        [[(''id'', Num 1), (''name'', Str ''Example Doc'')]]"
      and rows = "[[(''id'', Num 1), (''name'', Str ''Example Doc'')]]", OF a b,
      THEN conjunct1, rule_format, of "[[(''id'', Num 1), (''name'', Str ''Example Doc'')]]" "()"]
  have c1: "query example_builtins example_store
            (rows_pool
               [[(''document'', Num 1), (''text'', Str ''Hello''), (''vector'', Str ''[1,2,3]''),
          (''distance'', Num 0)],
        [(''document'', Num 1), (''text'', Str ''World''), (''vector'', Str ''[4,5,6]''),
          (''distance'', Num 1)]])
            [1, 2, 3] None Undefined Undefined () =
       (Inr [row_result
          [(''document'', Num 1), (''text'', Str ''Hello''), (''vector'', Str ''[1,2,3]''),
          (''distance'', Num 0)]
          (Arr [Num 1, Num 2, Num 3]),
             row_result
          [(''document'', Num 1), (''text'', Str ''World''), (''vector'', Str ''[4,5,6]''),
          (''distance'', Num 1)]
          (Arr [Num 4, Num 5, Num 6])], ())"
    using t1 [THEN conjunct2, THEN conjunct1]
    by (simp add: example_builtins_def obj_get_def) (auto simp: row_result_def obj_get_def)
  have c2: "query example_builtins example_store
            (rows_pool
               [[(''document'', Num 1), (''text'', Str ''Hello''), (''vector'', Str ''[1,2,3]''),
          (''distance'', Num 0)],
        [(''document'', Num 1), (''text'', Str ''World''), (''vector'', Str ''oops''),
          (''distance'', Num 1)]])
            [1, 2, 3] None Undefined Undefined () = (Inl JSONSyntaxError, ())"
    using t2 [THEN conjunct2, THEN conjunct2]
    by (simp add: example_builtins_def obj_get_def)
  have c3: "getDocuments example_store (rows_pool [[(''id'', Num 1), (''name'', Str ''Example Doc'')]]) () =
       (Inr [[(''id'', Num 1), (''name'', Str ''Example Doc'')]], ())"
    using t3 by (simp add: rows_pool_def)
  from a c1 c2 c3 show ?thesis by simp
qed

section \<open>The round trip of a vector\<close>

lemma below_ten:
  "d < (10::nat) \<Longrightarrow>
     d = 0 \<or> d = 1 \<or> d = 2 \<or> d = 3 \<or> d = 4 \<or> d = 5 \<or> d = 6 \<or> d = 7 \<or> d = 8 \<or> d = 9"
  by presburger

lemma digit_value_digit_chars: "d < 10 \<Longrightarrow> digit_value (digit_chars ! d) = Some d"
  by (drule below_ten) (auto simp: digit_value_def digit_chars_def)

lemma digit_chars_nth_in: "d < 10 \<Longrightarrow> digit_chars ! d \<in> set digit_chars"
  by (drule below_ten) (auto simp: digit_chars_def)

lemma show_nat_not_Nil: "show_nat n \<noteq> []"
  by (subst show_nat.simps) simp

lemma show_nat_digits: "set (show_nat n) \<subseteq> set digit_chars"
proof (induction n rule: show_nat.induct)
  case (1 n)
  show ?case
  proof (cases "n < 10")
    case True
    then show ?thesis
      by (subst show_nat.simps) (simp add: digit_chars_nth_in)
  next
    case False
    have "n mod 10 < 10" by simp
    then have "digit_chars ! (n mod 10) \<in> set digit_chars" by (rule digit_chars_nth_in)
    with 1 [OF False] False show ?thesis
      by (subst show_nat.simps) simp
  qed
qed

lemma decimal_value_append:
  "decimal_value a (xs @ ys) =
     (case decimal_value a xs of None \<Rightarrow> None | Some b \<Rightarrow> decimal_value b ys)"
  by (induction xs arbitrary: a) (auto split: option.splits)

lemma decimal_value_show_nat:
  "decimal_value a (show_nat n) = Some (a * 10 ^ length (show_nat n) + n)"
proof (induction n arbitrary: a rule: show_nat.induct)
  case (1 n)
  show ?case
  proof (cases "n < 10")
    case True
    then show ?thesis
      by (subst (1 2) show_nat.simps) (simp add: digit_value_digit_chars)
  next
    case False
    have d: "digit_value (digit_chars ! (n mod 10)) = Some (n mod 10)"
      by (rule digit_value_digit_chars) simp
    have s: "show_nat n = show_nat (n div 10) @ [digit_chars ! (n mod 10)]"
      using False by (subst show_nat.simps) simp
    have "10 * (n div 10) + n mod 10 = n" by simp
    then have "10 * (a * 10 ^ length (show_nat (n div 10)) + n div 10) + n mod 10 =
        a * 10 ^ length (show_nat n) + n"
      unfolding s by (simp add: algebra_simps)
    then show ?thesis
      unfolding s decimal_value_append 1 [OF False] by (simp add: d)
  qed
qed

lemma decimal_value_zeros: "decimal_value a (replicate m CHR ''0'') = Some (a * 10 ^ m)"
  by (induction m arbitrary: a) (simp_all add: digit_value_def)

lemma decimal_value_shift:
  "decimal_value a ds = map_option (\<lambda>v. a * 10 ^ length ds + v) (decimal_value 0 ds)"
proof (induction ds arbitrary: a)
  case Nil
  show ?case by simp
next
  case (Cons c cs)
  show ?case
  proof (cases "digit_value c")
    case None
    then show ?thesis by simp
  next
    case (Some d)
    have "decimal_value a (c # cs) =
        map_option (\<lambda>v. (10 * a + d) * 10 ^ length cs + v) (decimal_value 0 cs)"
      using Some Cons [of "10 * a + d"] by simp
    moreover have "decimal_value 0 (c # cs) =
        map_option (\<lambda>v. d * 10 ^ length cs + v) (decimal_value 0 cs)"
      using Some Cons [of d] by simp
    ultimately show ?thesis
      by (cases "decimal_value 0 cs") (simp_all add: algebra_simps)
  qed
qed

lemma decimal_value_split:
  assumes "decimal_value 0 (xs @ ys) = Some s"
  shows "\<exists>i f. decimal_value 0 xs = Some i \<and> decimal_value 0 ys = Some f
     \<and> s = i * 10 ^ length ys + f"
proof -
  from assms obtain i where i: "decimal_value 0 xs = Some i" and r: "decimal_value i ys = Some s"
    by (auto simp: decimal_value_append split: option.splits)
  from r obtain f where "decimal_value 0 ys = Some f" and "s = i * 10 ^ length ys + f"
    by (subst (asm) decimal_value_shift) auto
  with i show ?thesis by blast
qed

lemma show_nat_hd: "0 < n \<Longrightarrow> hd (show_nat n) \<noteq> CHR ''0''"
proof (induction n rule: show_nat.induct)
  case (1 n)
  show ?case
  proof (cases "n < 10")
    case True
    with 1(2) consider "n = 1" | "n = 2" | "n = 3" | "n = 4" | "n = 5" | "n = 6" | "n = 7"
      | "n = 8" | "n = 9"
      by linarith
    then show ?thesis
      by cases (simp_all add: show_nat.simps digit_chars_def)
  next
    case False
    then have "0 < n div 10" by simp
    from 1(1) [OF False this] False show ?thesis
      by (subst show_nat.simps) (simp add: show_nat_not_Nil)
  qed
qed

lemma digit_chars_cases:
  "c \<in> set digit_chars \<Longrightarrow>
     c \<noteq> CHR ''e'' \<and> c \<noteq> CHR ''E'' \<and> c \<noteq> CHR ''.'' \<and> c \<noteq> CHR ''-'' \<and> c \<noteq> CHR ''+''"
  by (auto simp: digit_chars_def)

lemma scale_to_int_value:
  "scale_to_int fuel r e = Some (s, e') \<Longrightarrow> 0 \<le> r \<Longrightarrow> real s * 10 powi e' = r * 10 powi e"
proof (induction fuel arbitrary: r e)
  case 0
  then have "r = of_int \<lfloor>r\<rfloor>" and "s = nat \<lfloor>r\<rfloor>" and "e' = e"
    by (auto split: if_splits)
  moreover from this 0(2) have "real (nat \<lfloor>r\<rfloor>) = of_int \<lfloor>r\<rfloor>" by simp
  ultimately show ?case by simp
next
  case (Suc fuel)
  show ?case
  proof (cases "r = of_int \<lfloor>r\<rfloor>")
    case True
    with Suc.prems have "s = nat \<lfloor>r\<rfloor>" and "e' = e" by auto
    moreover from Suc.prems(2) have "real (nat \<lfloor>r\<rfloor>) = of_int \<lfloor>r\<rfloor>" by simp
    ultimately show ?thesis using True by simp
  next
    case False
    with Suc.prems have "scale_to_int fuel (r * 10) (e - 1) = Some (s, e')" by simp
    moreover have "0 \<le> r * 10" using Suc.prems(2) by simp
    ultimately have "real s * 10 powi e' = r * 10 * 10 powi (e - 1)" by (rule Suc.IH)
    also have "\<dots> = r * 10 powi e"
      by (simp add: power_int_diff)
    finally show ?thesis .
  qed
qed

lemma strip_zeros_value:
  "strip_zeros s e = (s', e') \<Longrightarrow> real s' * 10 powi e' = real s * 10 powi e"
proof (induction s e rule: strip_zeros.induct)
  case (1 s e)
  show ?case
  proof (cases "s = 0 \<or> s mod 10 \<noteq> 0")
    case True
    with 1(2) show ?thesis by (subst (asm) strip_zeros.simps) auto
  next
    case False
    with 1(2) have "strip_zeros (s div 10) (e + 1) = (s', e')"
      by (subst (asm) strip_zeros.simps) simp
    with 1(1) False have "real s' * 10 powi e' = real (s div 10) * 10 powi (e + 1)" by simp
    also have "\<dots> = real (s div 10) * 10 * 10 powi e"
      by (simp add: power_int_add)
    also have "real (s div 10) * 10 = real (10 * (s div 10))" by simp
    also have "10 * (s div 10) = s" using False by auto
    finally show ?thesis .
  qed
qed

lemma strip_zeros_positive: "strip_zeros s e = (s', e') \<Longrightarrow> 0 < s \<Longrightarrow> 0 < s'"
proof (induction s e rule: strip_zeros.induct)
  case (1 s e)
  show ?case
  proof (cases "s = 0 \<or> s mod 10 \<noteq> 0")
    case True
    with 1(2,3) show ?thesis by (subst (asm) strip_zeros.simps) auto
  next
    case False
    with 1(2) have "strip_zeros (s div 10) (e + 1) = (s', e')"
      by (subst (asm) strip_zeros.simps) simp
    moreover from False have "0 < s div 10" by (auto simp: div_greater_zero_iff)
    ultimately show ?thesis using 1(1) False by simp
  qed
qed

lemma shortest_decimal_value:
  assumes "shortest_decimal r = Some (s, e)" and "0 < r"
  shows "real s * 10 powi e = r" and "0 < s"
proof -
  from assms(1) obtain s0 e0 where a: "scale_to_int 400 r 0 = Some (s0, e0)"
    and b: "strip_zeros s0 e0 = (s, e)"
    by (auto simp: shortest_decimal_def split: option.splits)
  from scale_to_int_value [OF a] assms(2) have v: "real s0 * 10 powi e0 = r" by simp
  with strip_zeros_value [OF b] show "real s * 10 powi e = r" by simp
  from v assms(2) have "0 < s0" by (cases "s0 = 0") auto
  with strip_zeros_positive [OF b] show "0 < s" .
qed

lemma takeWhile_dropWhile_append:
  assumes "\<forall>c \<in> set xs. P c" and "ys = [] \<or> \<not> P (hd ys)"
  shows "takeWhile P (xs @ ys) = xs" and "dropWhile P (xs @ ys) = ys"
proof -
  from assms(2) have t: "takeWhile P ys = []" and d: "dropWhile P ys = ys"
    by (cases ys; auto)+
  from assms(1) show "takeWhile P (xs @ ys) = xs" by (simp add: takeWhile_append2 t)
  from assms(1) show "dropWhile P (xs @ ys) = ys" by (simp add: dropWhile_append2 d)
qed

lemma json_number_parts:
  assumes W: "integer_part W = Some i" and F: "fraction_part F = Some (f, d)"
    and E: "exponent_part E = Some x"
    and cW: "set W \<subseteq> set digit_chars"
    and cF: "\<forall>c \<in> set F. c \<noteq> CHR ''e'' \<and> c \<noteq> CHR ''E''"
    and hF: "F = [] \<or> hd F = CHR ''.''"
    and hE: "E = [] \<or> hd E = CHR ''e''"
  shows "json_number (W @ F @ E) = Some ((real i + real f / 10 ^ d) * 10 powi x)"
    and "json_number (CHR ''-'' # W @ F @ E) = Some (- (real i + real f / 10 ^ d) * 10 powi x)"
proof -
  from W have ne: "W \<noteq> []" by (auto simp: integer_part_def split: if_splits)
  from cW ne have hd: "hd W \<noteq> CHR ''-''"
    by (cases W) (auto dest: digit_chars_cases)
  have m: "\<forall>c \<in> set (W @ F). c \<noteq> CHR ''e'' \<and> c \<noteq> CHR ''E''"
    using cW cF by (auto dest: digit_chars_cases)
  have e: "E = [] \<or> \<not> (hd E \<noteq> CHR ''e'' \<and> hd E \<noteq> CHR ''E'')"
    using hE by auto
  have t1: "takeWhile (\<lambda>c. c \<noteq> CHR ''e'' \<and> c \<noteq> CHR ''E'') (W @ F @ E) = W @ F"
    and d1: "dropWhile (\<lambda>c. c \<noteq> CHR ''e'' \<and> c \<noteq> CHR ''E'') (W @ F @ E) = E"
    using takeWhile_dropWhile_append [OF m e] by simp_all
  have w: "\<forall>c \<in> set W. c \<noteq> CHR ''.''"
    using cW by (auto dest: digit_chars_cases)
  have f: "F = [] \<or> \<not> hd F \<noteq> CHR ''.''"
    using hF by auto
  have t2: "takeWhile (\<lambda>c. c \<noteq> CHR ''.'') (W @ F) = W"
    and d2: "dropWhile (\<lambda>c. c \<noteq> CHR ''.'') (W @ F) = F"
    using takeWhile_dropWhile_append [OF w f] by simp_all
  have h: "hd (W @ F @ E) = hd W" using ne by simp
  show "json_number (W @ F @ E) = Some ((real i + real f / 10 ^ d) * 10 powi x)"
    unfolding json_number_def Let_def h using hd
    by (simp add: t1 d1 t2 d2 W F E)
  show "json_number (CHR ''-'' # W @ F @ E) = Some (- (real i + real f / 10 ^ d) * 10 powi x)"
    unfolding json_number_def Let_def
    by (simp add: t1 d1 t2 d2 W F E)
qed

lemma integer_part_show_nat:
  assumes "0 < s"
  shows "integer_part (show_nat s @ replicate z CHR ''0'') = Some (s * 10 ^ z)"
proof -
  have "hd (show_nat s @ replicate z CHR ''0'') = hd (show_nat s)"
    by (simp add: show_nat_not_Nil)
  with show_nat_hd [OF assms] have "hd (show_nat s @ replicate z CHR ''0'') \<noteq> CHR ''0''" by simp
  then show ?thesis
    by (simp add: integer_part_def show_nat_not_Nil decimal_value_append decimal_value_show_nat
        decimal_value_zeros)
qed

lemma split_digits:
  assumes "0 < s" and "0 < m" and "m < length (show_nat s)"
  shows "\<exists>i f. integer_part (take m (show_nat s)) = Some i
     \<and> fraction_part (CHR ''.'' # drop m (show_nat s)) = Some (f, length (show_nat s) - m)
     \<and> real i + real f / 10 ^ (length (show_nat s) - m) =
         real s / 10 ^ (length (show_nat s) - m)"
proof -
  define ds where "ds = show_nat s"
  have v: "decimal_value 0 (take m ds @ drop m ds) = Some s"
    by (simp add: ds_def decimal_value_show_nat)
  from decimal_value_split [OF v] obtain i f where i: "decimal_value 0 (take m ds) = Some i"
    and f: "decimal_value 0 (drop m ds) = Some f" and s: "s = i * 10 ^ length (drop m ds) + f"
    by blast
  have ne: "take m ds \<noteq> []" using assms(2,3) by (auto simp: ds_def)
  have "hd (take m ds) = hd ds" using assms(2) by (cases ds; cases m) simp_all
  with show_nat_hd [OF assms(1)] have "hd (take m ds) \<noteq> CHR ''0''" by (simp add: ds_def)
  with ne i have a: "integer_part (take m ds) = Some i" by (simp add: integer_part_def)
  have l: "length (drop m ds) = length ds - m" by simp
  have "drop m ds \<noteq> []" using assms(3) by (simp add: ds_def)
  with f have b: "fraction_part (CHR ''.'' # drop m ds) = Some (f, length ds - m)"
    by (simp add: fraction_part_def)
  have "real s = real i * 10 ^ (length ds - m) + real f"
    using s unfolding l by simp
  then have c: "real i + real f / 10 ^ (length ds - m) = real s / 10 ^ (length ds - m)"
    by (simp add: field_simps)
  from a b c show ?thesis unfolding ds_def by blast
qed

lemma exponent_part_show:
  "exponent_part (''e'' @ (if x < 0 then ''-'' else ''+'') @ show_nat (nat \<bar>x\<bar>)) = Some x"
  by (simp add: exponent_part_def show_nat_not_Nil decimal_value_show_nat)

lemma show_nat_number_chars: "set (show_nat n) \<subseteq> number_chars"
  using show_nat_digits [of n] by (auto simp: number_chars_def)

lemma parts_result:
  assumes nd: "t = W @ F @ E"
    and W: "integer_part W = Some i" and F: "fraction_part F = Some (f, d)"
    and E: "exponent_part E = Some x"
    and cW: "set W \<subseteq> set digit_chars" and cF: "\<forall>c \<in> set F. c \<noteq> CHR ''e'' \<and> c \<noteq> CHR ''E''"
    and hF: "F = [] \<or> hd F = CHR ''.''" and hE: "E = [] \<or> hd E = CHR ''e''"
    and v: "(real i + real f / 10 ^ d) * 10 powi x = r"
    and n: "set (W @ F @ E) \<subseteq> number_chars"
  shows "json_number t = Some r \<and> json_number (CHR ''-'' # t) = Some (- r)
     \<and> set t \<subseteq> number_chars \<and> t \<noteq> [] \<and> hd t \<in> set digit_chars"
proof -
  from json_number_parts(1) [OF W F E cW cF hF hE] have a: "json_number t = Some r"
    unfolding nd v .
  have "- (real i + real f / 10 ^ d) * 10 powi x = - r"
    using v by (simp only: mult_minus_left)
  with json_number_parts(2) [OF W F E cW cF hF hE] have b: "json_number (CHR ''-'' # t) = Some (- r)"
    unfolding nd by simp
  from n have c: "set t \<subseteq> number_chars" unfolding nd .
  from W have ne: "W \<noteq> []" by (auto simp: integer_part_def split: if_splits)
  then have d: "t \<noteq> []" unfolding nd by simp
  from ne cW have e: "hd t \<in> set digit_chars"
    unfolding nd by (cases W) auto
  from a b c d e show ?thesis by (intro conjI)
qed

lemma number_digits_parse:
  assumes "0 < s"
  shows "json_number (number_digits s e) = Some (real s * 10 powi e)
     \<and> json_number (CHR ''-'' # number_digits s e) = Some (- (real s * 10 powi e))
     \<and> set (number_digits s e) \<subseteq> number_chars \<and> number_digits s e \<noteq> []
     \<and> hd (number_digits s e) \<in> set digit_chars"
proof -
  define ds where "ds = show_nat s"
  define k where "k = length ds"
  define n where "n = e + int k"
  define E where "E = ''e'' @ (if n - 1 < 0 then ''-'' else ''+'') @ show_nat (nat \<bar>n - 1\<bar>)"
  have nd0: "number_digits s e =
      (if int k \<le> n \<and> n \<le> 21 then ds @ replicate (nat (n - int k)) CHR ''0''
       else if 0 < n \<and> n \<le> 21 then take (nat n) ds @ ''.'' @ drop (nat n) ds
       else if - 6 < n \<and> n \<le> 0 then ''0.'' @ replicate (nat (- n)) CHR ''0'' @ ds
       else (if int k = 1 then ds else take 1 ds @ ''.'' @ drop 1 ds) @ E)"
    unfolding number_digits_def Let_def E_def n_def k_def ds_def by (rule refl)
  have dig: "set ds \<subseteq> set digit_chars" unfolding ds_def by (rule show_nat_digits)
  have kpos: "0 < k" unfolding k_def ds_def using show_nat_not_Nil [of s] by simp
  have e0: "fraction_part [] = Some (0, 0)" by (simp add: fraction_part_def)
  have x0: "exponent_part [] = Some 0" by (simp add: exponent_part_def)
  have hF0: "([]::string) = [] \<or> hd ([]::string) = CHR ''.''" by simp
  have hE0: "([]::string) = [] \<or> hd ([]::string) = CHR ''e''" by simp
  have cF0: "\<forall>c \<in> set ([]::string). c \<noteq> CHR ''e'' \<and> c \<noteq> CHR ''E''" by simp
  consider (A) "int k \<le> n" "n \<le> 21"
    | (B) "\<not> (int k \<le> n \<and> n \<le> 21)" "0 < n" "n \<le> 21"
    | (C) "\<not> (int k \<le> n \<and> n \<le> 21)" "\<not> (0 < n \<and> n \<le> 21)" "- 6 < n" "n \<le> 0"
    | (D) "\<not> (int k \<le> n \<and> n \<le> 21)" "\<not> (0 < n \<and> n \<le> 21)" "\<not> (- 6 < n \<and> n \<le> 0)"
    by blast
  then show ?thesis
  proof cases
    case A
    define z where "z = nat (n - int k)"
    have ez: "e = int z" using A by (simp add: z_def n_def)
    have nd: "number_digits s e = (ds @ replicate z CHR ''0'') @ [] @ []"
      unfolding nd0 using A by (simp add: z_def)
    have ip: "integer_part (ds @ replicate z CHR ''0'') = Some (s * 10 ^ z)"
      unfolding ds_def using assms by (rule integer_part_show_nat)
    have c: "set (ds @ replicate z CHR ''0'') \<subseteq> set digit_chars"
      using dig by (auto simp: digit_chars_def)
    have v: "(real (s * 10 ^ z) + real 0 / 10 ^ 0) * 10 powi 0 = real s * 10 powi e"
      by (simp add: ez)
    have n: "set ((ds @ replicate z CHR ''0'') @ [] @ []) \<subseteq> number_chars"
      using c by (auto simp: number_chars_def)
    from parts_result [OF nd ip e0 x0 c cF0 hF0 hE0 v n] show ?thesis .
  next
    case B
    define m where "m = nat n"
    have m: "0 < m" "m < length (show_nat s)" using B by (auto simp: m_def k_def ds_def)
    from split_digits [OF assms m] obtain i f where
      ip: "integer_part (take m ds) = Some i"
      and fp: "fraction_part (CHR ''.'' # drop m ds) = Some (f, k - m)"
      and v: "real i + real f / 10 ^ (k - m) = real s / 10 ^ (k - m)"
      unfolding ds_def [symmetric] k_def [symmetric] by blast
    have nd: "number_digits s e = take m ds @ (CHR ''.'' # drop m ds) @ []"
      unfolding nd0 using B by (simp add: m_def)
    have c: "set (take m ds) \<subseteq> set digit_chars"
      using dig set_take_subset [of m ds] by blast
    have cF: "\<forall>c \<in> set (CHR ''.'' # drop m ds). c \<noteq> CHR ''e'' \<and> c \<noteq> CHR ''E''"
    proof
      fix c assume "c \<in> set (CHR ''.'' # drop m ds)"
      then have "c = CHR ''.'' \<or> c \<in> set digit_chars"
        using dig set_drop_subset [of m ds] by auto
      then show "c \<noteq> CHR ''e'' \<and> c \<noteq> CHR ''E''" by (auto dest: digit_chars_cases)
    qed
    have hF: "CHR ''.'' # drop m ds = [] \<or> hd (CHR ''.'' # drop m ds) = CHR ''.''" by simp
    have ek: "e = - int (k - m)" using B m by (simp add: n_def m_def k_def ds_def)
    have "(10::real) powi e = 1 / 10 ^ (k - m)"
      unfolding ek by (simp only: power_int_minus_divide power_int_of_nat)
    then have "real s * 10 powi e = real s / 10 ^ (k - m)"
      by simp
    with v have v': "(real i + real f / 10 ^ (k - m)) * 10 powi 0 = real s * 10 powi e" by simp
    have "set (drop m ds) \<subseteq> number_chars" "set (take m ds) \<subseteq> number_chars"
      using c dig set_drop_subset [of m ds] by (auto simp: number_chars_def)
    then have n: "set (take m ds @ (CHR ''.'' # drop m ds) @ []) \<subseteq> number_chars"
      by (simp add: number_chars_def)
    from parts_result [OF nd ip fp x0 c cF hF hE0 v' n] show ?thesis .
  next
    case C
    define z where "z = nat (- n)"
    have nd: "number_digits s e = ''0'' @ (CHR ''.'' # replicate z CHR ''0'' @ ds) @ []"
      unfolding nd0 using C by (simp add: z_def)
    have ip: "integer_part ''0'' = Some 0"
      by (simp add: integer_part_def digit_value_def)
    have "decimal_value 0 (replicate z CHR ''0'' @ ds) = Some s"
      by (simp add: decimal_value_append decimal_value_zeros ds_def decimal_value_show_nat)
    moreover have "replicate z CHR ''0'' @ ds \<noteq> []" using kpos by (auto simp: k_def)
    ultimately have fp: "fraction_part (CHR ''.'' # replicate z CHR ''0'' @ ds) = Some (s, z + k)"
      by (simp add: fraction_part_def k_def)
    have c: "set ''0'' \<subseteq> set digit_chars" by (simp add: digit_chars_def)
    have z0: "set (replicate z CHR ''0'') \<subseteq> set digit_chars" by (auto simp: digit_chars_def)
    have cF: "\<forall>c \<in> set (CHR ''.'' # replicate z CHR ''0'' @ ds). c \<noteq> CHR ''e'' \<and> c \<noteq> CHR ''E''"
    proof
      fix c assume "c \<in> set (CHR ''.'' # replicate z CHR ''0'' @ ds)"
      then have "c = CHR ''.'' \<or> c \<in> set digit_chars"
        using dig z0 by auto
      then show "c \<noteq> CHR ''e'' \<and> c \<noteq> CHR ''E''" by (auto dest: digit_chars_cases)
    qed
    have hF: "CHR ''.'' # replicate z CHR ''0'' @ ds = [] \<or>
        hd (CHR ''.'' # replicate z CHR ''0'' @ ds) = CHR ''.''" by simp
    have ez: "e = - int (z + k)" using C by (simp add: n_def z_def)
    have "(10::real) powi e = 1 / 10 ^ (z + k)"
      unfolding ez by (simp only: power_int_minus_divide power_int_of_nat)
    then have "real s * 10 powi e = real s / 10 ^ (z + k)"
      by simp
    then have v: "(real 0 + real s / 10 ^ (z + k)) * 10 powi 0 = real s * 10 powi e" by simp
    have "set ds \<subseteq> number_chars" "set (replicate z CHR ''0'') \<subseteq> number_chars"
      using dig z0 by (auto simp: number_chars_def)
    then have n: "set (''0'' @ (CHR ''.'' # replicate z CHR ''0'' @ ds) @ []) \<subseteq> number_chars"
      by (simp add: number_chars_def digit_chars_def)
    from parts_result [OF nd ip fp x0 c cF hF hE0 v n] show ?thesis .
  next
    case D
    have xp: "exponent_part E = Some (n - 1)" unfolding E_def by (rule exponent_part_show)
    have hE: "E = [] \<or> hd E = CHR ''e''" by (simp add: E_def)
    have "set (show_nat (nat \<bar>n - 1\<bar>)) \<subseteq> number_chars" by (rule show_nat_number_chars)
    then have cE: "set E \<subseteq> number_chars"
      by (simp add: E_def number_chars_def)
    show ?thesis
    proof (cases "k = 1")
      case True
      have nd: "number_digits s e = ds @ [] @ E"
        unfolding nd0 if_not_P [OF D(1)] if_not_P [OF D(2)] if_not_P [OF D(3)]
        using True by simp
      have ip: "integer_part ds = Some s"
        using integer_part_show_nat [OF assms, of 0] by (simp add: ds_def)
      have "n - 1 = e" using True by (simp add: n_def)
      then have v: "(real s + real 0 / 10 ^ 0) * 10 powi (n - 1) = real s * 10 powi e" by simp
      have "set ds \<subseteq> number_chars" using dig by (auto simp: number_chars_def)
      with cE have n: "set (ds @ [] @ E) \<subseteq> number_chars" by simp
      from parts_result [OF nd ip e0 xp dig cF0 hF0 hE v n] show ?thesis .
    next
      case False
      with kpos have "1 < k" by linarith
      then have m: "0 < (1::nat)" "1 < length (show_nat s)" by (simp_all add: k_def ds_def)
      from split_digits [OF assms m] obtain i f where
        ip: "integer_part (take 1 ds) = Some i"
        and fp: "fraction_part (CHR ''.'' # drop 1 ds) = Some (f, k - 1)"
        and v: "real i + real f / 10 ^ (k - 1) = real s / 10 ^ (k - 1)"
        unfolding ds_def [symmetric] k_def [symmetric] by blast
      have nd: "number_digits s e = take 1 ds @ (CHR ''.'' # drop 1 ds) @ E"
        unfolding nd0 if_not_P [OF D(1)] if_not_P [OF D(2)] if_not_P [OF D(3)]
        using False by simp
      have c: "set (take 1 ds) \<subseteq> set digit_chars"
        using dig set_take_subset [of 1 ds] by blast
      have cF: "\<forall>c \<in> set (CHR ''.'' # drop 1 ds). c \<noteq> CHR ''e'' \<and> c \<noteq> CHR ''E''"
      proof
        fix c assume "c \<in> set (CHR ''.'' # drop 1 ds)"
        then have "c = CHR ''.'' \<or> c \<in> set digit_chars"
          using dig set_drop_subset [of 1 ds] by auto
        then show "c \<noteq> CHR ''e'' \<and> c \<noteq> CHR ''E''" by (auto dest: digit_chars_cases)
      qed
      have hF: "CHR ''.'' # drop 1 ds = [] \<or> hd (CHR ''.'' # drop 1 ds) = CHR ''.''" by simp
      have "n - 1 = e + int (k - 1)" using kpos by (simp add: n_def)
      then have "(10::real) powi (n - 1) = 10 powi e * 10 ^ (k - 1)"
        by (simp add: power_int_add)
      then have v': "(real i + real f / 10 ^ (k - 1)) * 10 powi (n - 1) = real s * 10 powi e"
        unfolding v by simp
      have "set (drop 1 ds) \<subseteq> number_chars" "set (take 1 ds) \<subseteq> number_chars"
        using c dig set_drop_subset [of 1 ds] by (auto simp: number_chars_def)
      with cE have n: "set (take 1 ds @ (CHR ''.'' # drop 1 ds) @ E) \<subseteq> number_chars"
        by (simp add: number_chars_def)
      from parts_result [OF nd ip fp xp c cF hF hE v' n] show ?thesis .
    qed
  qed
qed

lemma ball_forward: "\<forall>x \<in> A. P x \<Longrightarrow> (\<And>x. P x \<Longrightarrow> Q x) \<Longrightarrow> \<forall>x \<in> A. Q x"
  by blast

lemma number_chars_cases:
  "c \<in> number_chars \<Longrightarrow>
     c \<noteq> CHR '','' \<and> \<not> json_whitespace c \<and> c \<noteq> CHR ''n'' \<and> c \<noteq> CHR ''t'' \<and> c \<noteq> CHR ''f''"
  by (auto simp: number_chars_def digit_chars_def json_whitespace_def)

lemma trim_plain:
  assumes "\<forall>c \<in> set t. \<not> json_whitespace c"
  shows "trim t = t"
proof (cases t)
  case Nil
  then show ?thesis by (simp add: trim_def)
next
  case (Cons c cs)
  have a: "dropWhile json_whitespace t = t"
    using assms Cons by simp
  have "rev t \<noteq> []" using Cons by simp
  moreover from this have "hd (rev t) \<in> set t" using hd_in_set [of "rev t"] by simp
  ultimately have "dropWhile json_whitespace (rev t) = rev t"
    using assms by (cases "rev t") auto
  then show ?thesis by (simp add: trim_def a)
qed

lemma json_number_zero: "json_number ''0'' = Some 0"
  by (simp add: json_number_def integer_part_def fraction_part_def exponent_part_def
      digit_value_def)

lemma number_toString_parse:
  assumes "finite_number r"
  shows "json_number (number_toString r) = Some r \<and> set (number_toString r) \<subseteq> number_chars
     \<and> number_toString r \<noteq> []"
proof (cases "r = 0")
  case True
  then show ?thesis
    by (simp add: number_toString_def json_number_zero number_chars_def digit_chars_def)
next
  case False
  from assms obtain s e where d: "shortest_decimal \<bar>r\<bar> = Some (s, e)"
    by (auto simp: finite_number_def)
  from False have "0 < \<bar>r\<bar>" by simp
  from shortest_decimal_value [OF d this] have v: "real s * 10 powi e = \<bar>r\<bar>" and s: "0 < s" .
  note p = number_digits_parse [OF s, of e]
  show ?thesis
  proof (cases "r < 0")
    case True
    have t: "number_toString r = CHR ''-'' # number_digits s e"
      using False True d by (simp add: number_toString_def)
    have "- (real s * 10 powi e) = r" using v True by simp
    with p have "json_number (CHR ''-'' # number_digits s e) = Some r" by simp
    moreover from p have "set (CHR ''-'' # number_digits s e) \<subseteq> number_chars"
      by (simp add: number_chars_def)
    ultimately show ?thesis unfolding t by simp
  next
    case neg: False
    have t: "number_toString r = number_digits s e"
      using False neg d by (simp add: number_toString_def)
    have "real s * 10 powi e = r" using v neg by simp
    with p show ?thesis unfolding t by simp
  qed
qed

lemma number_toString_scalar:
  assumes "finite_number r"
  shows "json_scalar (trim (number_toString r)) = Some (Num r)"
proof -
  from number_toString_parse [OF assms] have p: "json_number (number_toString r) = Some r"
    and c: "set (number_toString r) \<subseteq> number_chars" and ne: "number_toString r \<noteq> []"
    by simp_all
  from c have "\<forall>c \<in> set (number_toString r). \<not> json_whitespace c"
    by (auto dest: number_chars_cases)
  then have t: "trim (number_toString r) = number_toString r" by (rule trim_plain)
  from ne obtain x xs where x: "number_toString r = x # xs" by (cases "number_toString r") auto
  with c have "x \<in> number_chars" by auto
  then have "x \<noteq> CHR ''n''" "x \<noteq> CHR ''t''" "x \<noteq> CHR ''f''"
    by (auto dest: number_chars_cases)
  then have "number_toString r \<noteq> ''null''" "number_toString r \<noteq> ''true''"
      "number_toString r \<noteq> ''false''"
    unfolding x by auto
  then show ?thesis unfolding t by (simp add: json_scalar_def p)
qed

lemma split_on_plain: "c \<notin> set t \<Longrightarrow> split_on c t = [t]"
  by (induction t) auto

lemma split_on_append: "c \<notin> set t \<Longrightarrow> split_on c (t @ c # rest) = t # split_on c rest"
  by (induction t) auto

lemma split_on_join:
  "toks \<noteq> [] \<Longrightarrow> \<forall>t \<in> set toks. c \<notin> set t \<Longrightarrow> split_on c (join_with [c] toks) = toks"
proof (induction toks)
  case Nil
  then show ?case by simp
next
  case (Cons t toks)
  show ?case
  proof (cases toks)
    case Nil
    with Cons.prems show ?thesis by (simp add: split_on_plain)
  next
    case (Cons u us)
    then have "join_with [c] (t # toks) = t @ c # join_with [c] toks" by simp
    moreover have "split_on c (join_with [c] toks) = toks"
      using Cons Cons.prems by (intro Cons.IH) auto
    ultimately show ?thesis using Cons.prems by (simp add: split_on_append)
  qed
qed

lemma those_map_Some:
  "\<forall>x \<in> set xs. f x = Some (g x) \<Longrightarrow> those (map f xs) = Some (map g xs)"
  by (induction xs) simp_all

lemma set_join_with: "set (join_with sep toks) \<subseteq> set sep \<union> \<Union> (set ` set toks)"
  by (induction sep toks rule: join_with.induct) auto

lemma json_number_bracket: "json_number (CHR ''['' # t) = None"
proof -
  have "takeWhile (\<lambda>c. c \<noteq> CHR ''.'')
      (takeWhile (\<lambda>c. c \<noteq> CHR ''e'' \<and> c \<noteq> CHR ''E'') (CHR ''['' # t)) =
      CHR ''['' # takeWhile (\<lambda>c. c \<noteq> CHR ''.'') (takeWhile (\<lambda>c. c \<noteq> CHR ''e'' \<and> c \<noteq> CHR ''E'') t)"
    by simp
  then show ?thesis
    by (simp add: json_number_def Let_def integer_part_def digit_value_def)
qed

lemma json_text_numbers:
  assumes "list_all finite_number v"
  shows "json_text (''['' @ join_with '','' (map number_toString v) @ '']'') = Some (Arr (map Num v))"
proof -
  define J where "J = join_with '','' (map number_toString v)"
  define u where "u = ''['' @ J @ '']''"
  have fin: "\<forall>x \<in> set v. finite_number x" using assms by (simp add: list_all_iff)
  have tok: "\<forall>t \<in> set (map number_toString v). set t \<subseteq> number_chars"
    using fin number_toString_parse by auto
  have sJ: "set J \<subseteq> set '','' \<union> \<Union> (set ` set (map number_toString v))"
    unfolding J_def by (rule set_join_with)
  have "\<forall>c \<in> set J. c = CHR '','' \<or> c \<in> number_chars"
  proof
    fix c
    assume "c \<in> set J"
    with sJ have "c \<in> set '','' \<union> \<Union> (set ` set (map number_toString v))" by (rule subsetD)
    then consider "c = CHR '',''" | t where "t \<in> set (map number_toString v)" and "c \<in> set t"
      by auto
    then show "c = CHR '','' \<or> c \<in> number_chars"
    proof cases
      case 1
      then show ?thesis by simp
    next
      case 2
      from tok 2(1) have "set t \<subseteq> number_chars" by (rule bspec)
      with 2(2) show ?thesis by auto
    qed
  qed
  then have cJ: "\<forall>c \<in> set J. \<not> json_whitespace c"
  proof (rule ball_forward)
    fix c
    assume "c = CHR '','' \<or> c \<in> number_chars"
    then show "\<not> json_whitespace c"
    proof
      assume "c = CHR '',''"
      then show ?thesis by (simp add: json_whitespace_def)
    next
      assume "c \<in> number_chars"
      then show ?thesis using number_chars_cases [of c] by simp
    qed
  qed
  then have tJ: "trim J = J" by (rule trim_plain)
  have "dropWhile json_whitespace (rev u) = rev u" by (simp add: u_def json_whitespace_def)
  then have tu: "trim u = u" by (simp add: trim_def u_def json_whitespace_def)
  have sc: "json_scalar u = None"
    by (simp add: json_scalar_def u_def json_number_bracket)
  have inner: "butlast (tl u) = J" by (simp add: u_def butlast_append)
  have shape: "2 \<le> length u \<and> hd u = CHR ''['' \<and> last u = CHR '']''" by (simp add: u_def)
  have body: "json_text u =
      (if J = [] then Some (Arr [])
       else map_option Arr (those (map (\<lambda>element. json_scalar (trim element))
                                    (split_on CHR '','' J))))"
    by (simp add: json_text_def Let_def tu sc shape inner tJ)
  show ?thesis
  proof (cases v)
    case Nil
    then show ?thesis
      unfolding u_def [symmetric] J_def [symmetric] body by (simp add: J_def)
  next
    case (Cons x xs)
    then have ne: "map number_toString v \<noteq> []" by simp
    have "number_toString x \<noteq> []" using fin Cons number_toString_parse [of x] by simp
    then have "J \<noteq> []" unfolding J_def Cons by (cases xs) simp_all
    moreover have "\<forall>t \<in> set (map number_toString v). CHR '','' \<notin> set t"
      using tok
    proof (rule ball_forward)
      fix t :: string
      assume "set t \<subseteq> number_chars"
      then show "CHR '','' \<notin> set t" using number_chars_cases [of "CHR '',''"] by auto
    qed
    then have "split_on CHR '','' J = map number_toString v"
      unfolding J_def using ne by (intro split_on_join) auto
    moreover have "those (map (\<lambda>element. json_scalar (trim element)) (map number_toString v)) =
        Some (map Num v)"
      unfolding map_map comp_def
      using fin by (intro those_map_Some) (auto simp: number_toString_scalar)
    ultimately show ?thesis
      unfolding u_def [symmetric] J_def [symmetric] body by simp
  qed
qed

lemma array_join_numbers:
  "array_join language_builtins sep (map Num v) = join_with sep (map number_toString v)"
  by (simp add: array_join_def language_builtins_def comp_def)

lemma JSON_parse_Str: "JSON_parse language_builtins (Str t) = json_text t"
  by (simp add: language_builtins_def)

lemma vector_round_trip_core:
  assumes "list_all finite_number v"
  shows "JSON_parse language_builtins
           (Str (''['' @ array_join language_builtins '','' (map Num v) @ '']'')) =
         Some (Arr (map Num v))"
  unfolding JSON_parse_Str array_join_numbers using assms by (rule json_text_numbers)

lemma scale_to_int_unfold:
  "scale_to_int fuel r e =
     (if r = of_int \<lfloor>r\<rfloor> then Some (nat \<lfloor>r\<rfloor>, e)
      else if fuel = 0 then None else scale_to_int (fuel - 1) (r * 10) (e - 1))"
  by (cases fuel) simp_all

lemma replicate_unfold: "replicate n x = (if n = 0 then [] else x # replicate (n - 1) x)"
  by (cases n) simp_all

lemmas number_eval = finite_number_def shortest_decimal_def scale_to_int_unfold strip_zeros.simps
  number_toString_def number_digits_def show_nat.simps digit_chars_def Let_def
  replicate_unfold

text \<open>
  Claim C10. For every vector of finite numbers, each number prints as a JSON number
  that reads back as the number; the string the insert binds for the vector and the
  string the query binds for its vector are the same serialisation, the elements joined
  by commas between brackets; \<open>JSON.parse\<close> decodes that string into the list of the
  numbers of the vector; and \<open>query\<close> gives a row whose vector column holds it a result
  with that vector.
\<close>

theorem vector_round_trip:
  assumes "list_all finite_number v"
  shows "list_all (\<lambda>x. json_number (Number_toString language_builtins x) = Some x) v
     \<and> bind_value language_builtins (Arr (map Num v)) =
       Str (''['' @ array_join language_builtins '','' (map Num v) @ '']'')
     \<and> hd (values_of (query_statement language_builtins st operator v documents limit offset)) =
       Str (''['' @ array_join language_builtins '','' (map Num v) @ '']'')
     \<and> JSON_parse language_builtins
         (Str (''['' @ array_join language_builtins '','' (map Num v) @ '']'')) =
       Some (Arr (map Num v))
     \<and> (obj_get row ''vector'' =
           Str (''['' @ array_join language_builtins '','' (map Num v) @ '']'') \<longrightarrow>
         map_rows language_builtins [row] =
           Inr [\<lparr> result_text = obj_get row ''text'', result_vector = Arr (map Num v),
                  result_distance = obj_get row ''distance'',
                  result_document = obj_get row ''document'' \<rparr>])"
proof -
  have n: "list_all (\<lambda>x. json_number (Number_toString language_builtins x) = Some x) v"
    using assms number_toString_parse by (simp add: list_all_iff language_builtins_def)
  have a: "bind_value language_builtins (Arr (map Num v)) =
       Str (''['' @ array_join language_builtins '','' (map Num v) @ '']'')"
    by (simp add: bind_value_def)
  have b: "hd (values_of (query_statement language_builtins st operator v documents limit offset)) =
       Str (''['' @ array_join language_builtins '','' (map Num v) @ '']'')"
    unfolding query_statement_render values_render query_template_def by simp
  have c: "JSON_parse language_builtins
         (Str (''['' @ array_join language_builtins '','' (map Num v) @ '']'')) =
       Some (Arr (map Num v))"
    unfolding JSON_parse_Str array_join_numbers using assms by (rule json_text_numbers)
  have d: "obj_get row ''vector'' =
           Str (''['' @ array_join language_builtins '','' (map Num v) @ '']'') \<longrightarrow>
         map_rows language_builtins [row] =
           Inr [\<lparr> result_text = obj_get row ''text'', result_vector = Arr (map Num v),
                  result_distance = obj_get row ''distance'',
                  result_document = obj_get row ''document'' \<rparr>]"
    using c by simp
  from n a b c d show ?thesis by (intro conjI)
qed

theorem vector_round_trip_witness:
  "list_all finite_number [1, 5 / 2, - 3, 1 / 1000]
   \<and> bind_value language_builtins (Arr (map Num [1, 5 / 2, - 3, 1 / 1000])) = Str ''[1,2.5,-3,0.001]''
   \<and> JSON_parse language_builtins (Str ''[1,2.5,-3,0.001]'') =
       Some (Arr [Num 1, Num (5 / 2), Num (- 3), Num (1 / 1000)])
   \<and> map_rows language_builtins
         [[(''document'', Num 7), (''text'', Str ''Hello''), (''vector'', Str ''[1,2.5,-3,0.001]''),
           (''distance'', Num 0)]] =
       Inr [\<lparr> result_text = Str ''Hello'',
              result_vector = Arr [Num 1, Num (5 / 2), Num (- 3), Num (1 / 1000)],
              result_distance = Num 0, result_document = Num 7 \<rparr>]"
proof -
  have h: "list_all finite_number [1, 5 / 2, - 3, 1 / 1000]"
    by (simp add: number_eval)
  have t: "''['' @ array_join language_builtins '','' (map Num [1, 5 / 2, - 3, 1 / 1000]) @ '']'' =
      ''[1,2.5,-3,0.001]''"
    unfolding array_join_numbers by (simp add: number_eval)
  note r = vector_round_trip [OF h, unfolded t,
      where row = "[(''document'', Num 7), (''text'', Str ''Hello''),
        (''vector'', Str ''[1,2.5,-3,0.001]''), (''distance'', Num 0)]"]
  from r have "bind_value language_builtins (Arr (map Num [1, 5 / 2, - 3, 1 / 1000])) =
      Str ''[1,2.5,-3,0.001]''"
    by simp
  moreover from r have "JSON_parse language_builtins (Str ''[1,2.5,-3,0.001]'') =
       Some (Arr [Num 1, Num (5 / 2), Num (- 3), Num (1 / 1000)])"
    by simp
  moreover from r have "map_rows language_builtins
         [[(''document'', Num 7), (''text'', Str ''Hello''), (''vector'', Str ''[1,2.5,-3,0.001]''),
           (''distance'', Num 0)]] =
       Inr [\<lparr> result_text = Str ''Hello'',
              result_vector = Arr [Num 1, Num (5 / 2), Num (- 3), Num (1 / 1000)],
              result_distance = Num 0, result_document = Num 7 \<rparr>]"
    by (simp add: obj_get_def)
  ultimately show ?thesis using h by (intro conjI)
qed

end
